theory Spec2Isabelle
  imports Main
begin

section \<open>Supervised loop thread (async\_utils.AsyncThread)\<close>

text \<open>
  \<^verbatim>\<open>AsyncThread\<close> is a \<^verbatim>\<open>FuncThread\<close> whose body is \<^verbatim>\<open>run_func\<close>:
  \<^verbatim>\<open>
    def run_func(self, *args):
        loop = self.loop or ensure_event_loop()
        self.shutdown_event = asyncio.Event()
        if self.async_func_gen:
            async_func = self.async_func_gen(loop, self.shutdown_event)
            if async_func:
                loop.run_until_complete(async_func)
        loop.run_forever()

    def stop(self, quiet=None):
        if self.shutdown_event:
            self.shutdown_event.set()
            self.shutdown_event = None
  \<close>
  The \<^verbatim>\<open>asyncio.Event\<close> objects live in a store, because the event made by
  \<^verbatim>\<open>run_func\<close> is shared: the thread object holds a reference in its field
  \<^verbatim>\<open>shutdown_event\<close>, and the generator \<^verbatim>\<open>async_func_gen\<close> receives the same
  object. The store is a list of flags; an event is the index of its flag, and a new event
  is appended, so that it is distinct from every event made before.

  The places where the thread can be are the phases: \<open>Created\<close> (the object exists,
  \<^verbatim>\<open>run_func\<close> has not been entered), \<open>Completing\<close> (inside
  \<^verbatim>\<open>loop.run_until_complete(async_func)\<close>), \<open>Serving\<close> (inside
  \<^verbatim>\<open>loop.run_forever()\<close>) and \<open>Terminated\<close> (\<^verbatim>\<open>run_func\<close> has returned or raised).
\<close>

datatype phase = Created | Completing | Serving | Terminated

text \<open>
  What the call \<^verbatim>\<open>self.async_func_gen(loop, self.shutdown_event)\<close> does: it returns
  nothing (a falsy value), it returns an async function, or it raises. The generator and
  the async function are the only code that is handed the event; the flag of \<open>Coroutine\<close>
  tells whether the async function finishes only once the event is set (it awaits
  \<^verbatim>\<open>shutdown_event.wait()\<close>) or on its own.
\<close>

datatype gen_result = No_coroutine | Coroutine bool | Gen_raises

record async_thread =
  async_func_gen :: "(nat \<Rightarrow> nat \<Rightarrow> gen_result) option"
  loop :: "nat option"
  shutdown_event :: "nat option"
  events :: "bool list"
  phase :: phase
  loop_stopping :: bool
  awaited :: "nat option"

text \<open>
  \<^verbatim>\<open>__init__(self, async_func_gen=None, loop=None)\<close>. \<open>loop_stopping\<close> is the flag of
  the asyncio loop that \<^verbatim>\<open>loop.stop()\<close> sets and that makes \<^verbatim>\<open>run_forever\<close> return; it
  belongs to the loop, not to this module. \<open>awaited\<close> is the event that the async function
  under \<^verbatim>\<open>run_until_complete\<close> waits for, when it waits for one.
\<close>

definition AsyncThread_init :: "(nat \<Rightarrow> nat \<Rightarrow> gen_result) option \<Rightarrow> nat option \<Rightarrow> async_thread" where
  "AsyncThread_init gen lp =
     \<lparr>async_func_gen = gen, loop = lp, shutdown_event = None, events = [],
      phase = Created, loop_stopping = False, awaited = None\<rparr>"

text \<open>
  The straight-line part of \<^verbatim>\<open>run_func\<close>, up to the call that blocks. \<open>own\<close> is the loop
  that \<^verbatim>\<open>ensure_event_loop()\<close> gives in the new thread. The event is stored in the field
  before the generator is called, so it is there also when the generator raises and
  \<^verbatim>\<open>run_func\<close> ends at once.
\<close>

definition run_func :: "nat \<Rightarrow> async_thread \<Rightarrow> async_thread" where
  "run_func own t =
     (let lp = (case loop t of Some l \<Rightarrow> l | None \<Rightarrow> own);
          ev = length (events t);
          t1 = t\<lparr>events := events t @ [False], shutdown_event := Some ev\<rparr>
      in case async_func_gen t of
           None \<Rightarrow> t1\<lparr>phase := Serving\<rparr>
         | Some gen \<Rightarrow>
             (case gen lp ev of
                No_coroutine \<Rightarrow> t1\<lparr>phase := Serving\<rparr>
              | Coroutine waits \<Rightarrow>
                  t1\<lparr>phase := Completing, awaited := (if waits then Some ev else None)\<rparr>
              | Gen_raises \<Rightarrow> t1\<lparr>phase := Terminated\<rparr>))"

definition stop :: "async_thread \<Rightarrow> async_thread" where
  "stop t =
     (case shutdown_event t of
        Some ev \<Rightarrow> t\<lparr>events := (events t)[ev := True], shutdown_event := None\<rparr>
      | None \<Rightarrow> t)"

text \<open>Whether the event \<open>ev\<close> exists and is set (\<^verbatim>\<open>Event.is_set()\<close>).\<close>

definition is_set :: "async_thread \<Rightarrow> nat \<Rightarrow> bool" where
  "is_set t ev = (ev < length (events t) \<and> events t ! ev)"

text \<open>
  What can happen to a thread, one action at a time:
  \<^item> \<open>Enter own\<close>: the started thread is scheduled and runs \<^verbatim>\<open>run_func\<close> up to its
    blocking call (a thread is started once, so this acts in phase \<open>Created\<close> only);
  \<^item> \<open>Complete\<close>: the async function given to \<^verbatim>\<open>run_until_complete\<close> finishes, which
    one that awaits the event can do only when the event is set; \<^verbatim>\<open>run_until_complete\<close>
    returns (its inner \<^verbatim>\<open>run_forever\<close> clears the loop's stop flag on the way out) and
    \<^verbatim>\<open>run_func\<close> goes on to \<^verbatim>\<open>run_forever\<close>;
  \<^item> \<open>Fail\<close>: \<^verbatim>\<open>run_func\<close> ends by an exception: \<^verbatim>\<open>ensure_event_loop()\<close> raises
    before the event is made, the async function raises, or \<^verbatim>\<open>run_until_complete\<close> or
    \<^verbatim>\<open>run_forever\<close> raises (the loop is already running in another thread, an exception
    escapes the loop);
  \<^item> \<open>Tick\<close>: the loop runs one iteration; when the loop has been asked to stop,
    \<^verbatim>\<open>run_forever\<close> returns and \<^verbatim>\<open>run_until_complete\<close> raises (the future is not done),
    and either way \<^verbatim>\<open>run_func\<close> ends;
  \<^item> \<open>Stop\<close>: some thread calls \<^verbatim>\<open>stop()\<close> on the object;
  \<^item> \<open>LoopStop\<close>: some code calls \<^verbatim>\<open>loop.stop()\<close> on the thread's loop. Nothing in
    this module does; the code that was handed the event, or work scheduled on the loop, may.
\<close>

datatype action = Enter nat | Complete | Fail | Tick | Stop | LoopStop

fun step :: "action \<Rightarrow> async_thread \<Rightarrow> async_thread" where
  "step (Enter own) t = (if phase t = Created then run_func own t else t)"
| "step Complete t =
     (if phase t = Completing \<and> (case awaited t of None \<Rightarrow> True | Some ev \<Rightarrow> is_set t ev)
      then t\<lparr>phase := Serving, loop_stopping := False\<rparr> else t)"
| "step Fail t = (if phase t \<noteq> Terminated then t\<lparr>phase := Terminated\<rparr> else t)"
| "step Tick t =
     (if (phase t = Completing \<or> phase t = Serving) \<and> loop_stopping t
      then t\<lparr>phase := Terminated, loop_stopping := False\<rparr> else t)"
| "step Stop t = stop t"
| "step LoopStop t = t\<lparr>loop_stopping := True\<rparr>"

fun exec :: "action list \<Rightarrow> async_thread \<Rightarrow> async_thread" where
  "exec [] t = t"
| "exec (a # as) t = exec as (step a t)"


section \<open>Shutdown-aware poll (async\_utils.receive\_from\_queue)\<close>

text \<open>
  \<^verbatim>\<open>
    async def receive_from_queue(queue):
        def get():
            # run in a retry loop (instead of blocking forever) to allow for graceful shutdown
            while True:
                try:
                    if common.INFRA_STOPPED:
                        return
                    return queue.get(timeout=1)
                except Exception:
                    pass
        msg = await run_sync(get)
        return msg
  \<close>
  The queue is the list of its items, oldest first. The rest of the process is a script
  with one entry for each iteration of the loop: the value of \<^verbatim>\<open>common.INFRA_STOPPED\<close>
  that the iteration reads, and what happens at the queue during its
  \<^verbatim>\<open>queue.get(timeout=1)\<close>: nothing (\<open>Quiet\<close>), another thread puts an item
  (\<open>Arrives\<close>), or the call raises (\<open>Fails\<close>). The loop can go on forever; a script
  that ends while the loop is still retrying gives \<open>Retrying\<close>.
\<close>

datatype exn = QueueEmpty | StoreError | BaseOnly

text \<open>
  \<open>QueueEmpty\<close> is \<^verbatim>\<open>queue.Empty\<close>, the timeout of one attempt; \<open>StoreError\<close> is any
  other exception derived from \<^verbatim>\<open>Exception\<close>; \<open>BaseOnly\<close> is an exception outside that
  hierarchy (\<^verbatim>\<open>KeyboardInterrupt\<close>, \<^verbatim>\<open>SystemExit\<close>), which \<^verbatim>\<open>except Exception\<close>
  does not catch.
\<close>

fun is_Exception :: "exn \<Rightarrow> bool" where
  "is_Exception QueueEmpty = True"
| "is_Exception StoreError = True"
| "is_Exception BaseOnly = False"

datatype 'a event = Quiet | Arrives 'a | Fails exn

datatype entry = ReadFlag bool | GetCall

datatype 'a outcome = Returned "'a option" | Raised exn | Retrying

text \<open>\<^verbatim>\<open>queue.get(timeout=1)\<close>: the oldest item, or \<^verbatim>\<open>queue.Empty\<close> after the timeout.\<close>

fun queue_get :: "'a list \<Rightarrow> 'a event \<Rightarrow> (exn + 'a) \<times> 'a list" where
  "queue_get q (Fails e) = (Inl e, q)"
| "queue_get [] Quiet = (Inl QueueEmpty, [])"
| "queue_get (x # q) Quiet = (Inr x, q)"
| "queue_get [] (Arrives y) = (Inr y, [])"
| "queue_get (x # q) (Arrives y) = (Inr x, q @ [y])"

text \<open>
  The body of the \<^verbatim>\<open>try\<close>: the value returned or the exception raised, the queue
  afterwards, and what was executed (the flag read, the queue asked).
\<close>

definition try_body :: "bool \<Rightarrow> 'a list \<Rightarrow> 'a event \<Rightarrow> (exn + 'a option) \<times> 'a list \<times> entry list" where
  "try_body stopped q ev =
     (if stopped then (Inr None, q, [ReadFlag True])
      else case queue_get q ev of
             (Inl e, q') \<Rightarrow> (Inl e, q', [ReadFlag False, GetCall])
           | (Inr x, q') \<Rightarrow> (Inr (Some x), q', [ReadFlag False, GetCall]))"

fun get :: "'a list \<Rightarrow> (bool \<times> 'a event) list \<Rightarrow> 'a outcome \<times> 'a list \<times> entry list" where
  "get q [] = (Retrying, q, [])"
| "get q ((stopped, ev) # rest) =
     (case try_body stopped q ev of
        (Inr r, q', lg) \<Rightarrow> (Returned r, q', lg)
      | (Inl e, q', lg) \<Rightarrow>
          if is_Exception e
          then (case get q' rest of (res, q'', lg') \<Rightarrow> (res, q'', lg @ lg'))
          else (Raised e, q', lg))"

text \<open>
  \<^verbatim>\<open>run_sync(get)\<close> runs \<^verbatim>\<open>get\<close> on a thread of the pool and hands its result, or the
  exception it raised, to the awaiting task: the outcome of \<^verbatim>\<open>receive_from_queue\<close> is the
  outcome of \<^verbatim>\<open>get\<close>.
\<close>

definition receive_from_queue :: "'a list \<Rightarrow> (bool \<times> 'a event) list \<Rightarrow> 'a outcome \<times> 'a list \<times> entry list" where
  "receive_from_queue q script = get q script"


section \<open>Elastic worker pool (async\_utils.AdaptiveThreadPool)\<close>

text \<open>
  \<^verbatim>\<open>
    class AdaptiveThreadPool(concurrent.futures.ThreadPoolExecutor):
        """ Thread pool executor that maintains a maximum of 'core_size' reusable threads in
            the core pool, and creates new thread instances as needed (if the core pool is full). """
        DEFAULT_CORE_POOL_SIZE = 30

        def __init__(self, core_size=None):
            self.core_size = core_size or self.DEFAULT_CORE_POOL_SIZE
            super(AdaptiveThreadPool, self).__init__(max_workers=self.core_size)

        def submit(self, fn, *args, **kwargs):
            # if idle threads are available, don't spin new threads
            if self.has_idle_threads():
                return super(AdaptiveThreadPool, self).submit(fn, *args, **kwargs)
            def _run(*tmpargs):
                return fn(*args, **kwargs)
            thread = start_worker_thread(_run)
            return thread.result_future

        def has_idle_threads(self):
            if hasattr(self, '_idle_semaphore'):
                return self._idle_semaphore.acquire(timeout=0)
            num_threads = len(self._threads)
            return num_threads < self._max_workers
  \<close>
  The fields \<^verbatim>\<open>_idle_semaphore\<close>, \<^verbatim>\<open>_threads\<close> and \<^verbatim>\<open>_max_workers\<close> are those of the
  standard library's executor. The semaphore, where the executor has one (Python 3.8 and
  later), counts the persistent threads that wait for work: it starts at zero and a worker
  releases it each time it becomes idle. \<open>idle_semaphore = None\<close> is an executor without
  the attribute. \<open>threads\<close> is \<^verbatim>\<open>len(self._threads)\<close>, \<open>work_queue\<close> holds the tasks
  handed to the persistent pool, and \<open>transient\<close> the tasks for which a thread of their own
  was started.
\<close>

record 'a pool =
  core_size :: nat
  max_workers :: nat
  idle_semaphore :: "nat option"
  threads :: nat
  work_queue :: "'a list"
  transient :: "'a list"

definition DEFAULT_CORE_POOL_SIZE :: nat where
  "DEFAULT_CORE_POOL_SIZE = 30"

text \<open>
  The constructor. \<^verbatim>\<open>core_size or DEFAULT\<close> takes the default for \<^verbatim>\<open>None\<close> and for
  \<open>0\<close>. \<open>has_semaphore\<close> tells whether the executor of the running Python has the
  attribute \<^verbatim>\<open>_idle_semaphore\<close>.
\<close>

definition AdaptiveThreadPool_init :: "bool \<Rightarrow> nat option \<Rightarrow> 'a pool" where
  "AdaptiveThreadPool_init has_semaphore cs =
     (let c = (case cs of None \<Rightarrow> DEFAULT_CORE_POOL_SIZE
               | Some n \<Rightarrow> if n = 0 then DEFAULT_CORE_POOL_SIZE else n)
      in \<lparr>core_size = c, max_workers = c,
          idle_semaphore = (if has_semaphore then Some 0 else None),
          threads = 0, work_queue = [], transient = []\<rparr>)"

text \<open>\<^verbatim>\<open>acquire(timeout=0)\<close> takes a permit if there is one and does not wait.\<close>

definition has_idle_threads :: "'a pool \<Rightarrow> bool \<times> 'a pool" where
  "has_idle_threads p =
     (case idle_semaphore p of
        Some n \<Rightarrow> if 0 < n then (True, p\<lparr>idle_semaphore := Some (n - 1)\<rparr>) else (False, p)
      | None \<Rightarrow> (threads p < max_workers p, p))"

text \<open>
  \<^verbatim>\<open>ThreadPoolExecutor.submit\<close> of the standard library: the work item goes on the
  unbounded work queue, then \<^verbatim>\<open>_adjust_thread_count\<close> starts one more persistent thread
  unless an idle one can be claimed or \<^verbatim>\<open>_max_workers\<close> threads exist.
\<close>

definition executor_submit :: "'a \<Rightarrow> 'a pool \<Rightarrow> 'a pool" where
  "executor_submit task p =
     (let p1 = p\<lparr>work_queue := work_queue p @ [task]\<rparr>
      in case idle_semaphore p1 of
           Some (Suc n) \<Rightarrow> p1\<lparr>idle_semaphore := Some n\<rparr>
         | _ \<Rightarrow> if threads p1 < max_workers p1 then p1\<lparr>threads := threads p1 + 1\<rparr> else p1)"

text \<open>
  Modelled from the spec: \<^verbatim>\<open>start_worker_thread\<close> belongs to
  \<^verbatim>\<open>localstack.utils.common\<close>, which is not among the sources. The spec: "a brand-new
  transient, one-shot thread is created solely to run this task; its completion resolves a
  dedicated future".
\<close>

definition start_worker_thread :: "'a \<Rightarrow> 'a pool \<Rightarrow> 'a pool" where
  "start_worker_thread task p = p\<lparr>transient := transient p @ [task]\<rparr>"

datatype route = Persistent | Transient

text \<open>
  \<^verbatim>\<open>submit\<close> returns a future in both branches; the model returns which kind of thread
  will complete it.
\<close>

definition submit :: "'a \<Rightarrow> 'a pool \<Rightarrow> route \<times> 'a pool" where
  "submit task p =
     (case has_idle_threads p of
        (True, p1) \<Rightarrow> (Persistent, executor_submit task p1)
      | (False, p1) \<Rightarrow> (Transient, start_worker_thread task p1))"

fun submit_all :: "'a list \<Rightarrow> 'a pool \<Rightarrow> route list \<times> 'a pool" where
  "submit_all [] p = ([], p)"
| "submit_all (task # tasks) p =
     (case submit task p of (r, p1) \<Rightarrow>
        (case submit_all tasks p1 of (rs, p2) \<Rightarrow> (r # rs, p2)))"

section \<open>Named loop registry (async\_utils.get\_named\_event\_loop)\<close>

text \<open>
  \<^verbatim>\<open>
    EVENT_LOOPS = {}

    def get_named_event_loop(name):
        result = EVENT_LOOPS.get(name)
        if result:
            return result
        def async_func_gen(loop, shutdown_event):
            EVENT_LOOPS[name] = loop
        AsyncThread.run_async(async_func_gen)
        time.sleep(1)
        return EVENT_LOOPS[name]
  \<close>
  The dictionary is shared by all threads and nothing locks it, so a call is not one step:
  other callers and the loop threads run between its lookup, its \<^verbatim>\<open>run_async\<close> and its
  final lookup. The model is the interleaving of these steps.

  A loop is a number. The thread that \<^verbatim>\<open>run_async\<close> starts gets a loop of its own from
  \<^verbatim>\<open>ensure_event_loop()\<close>, and writes the registry entry when it is scheduled and its
  \<^verbatim>\<open>run_func\<close> calls the generator. Until then the thread is \<open>pending\<close>: the list holds,
  for each started thread that has not yet registered, its loop and the name it will
  register. \<open>TMP_THREADS\<close> is the list to which \<^verbatim>\<open>run_async\<close> appends every thread.
  \<open>calls\<close> tells, for each calling thread that is inside \<^verbatim>\<open>get_named_event_loop\<close>, how
  far it has come: \<open>Checked name\<close> after a first lookup that found nothing,
  \<open>Sleeping name\<close> once it has started its loop thread and waits.
\<close>

datatype call = Checked string | Sleeping string

record registry =
  EVENT_LOOPS :: "string \<rightharpoonup> nat"
  pending :: "(nat \<times> string) list"
  TMP_THREADS :: "nat list"
  next_loop :: nat
  calls :: "(nat \<times> call) list"

datatype error = KeyError string

definition set_call :: "nat \<Rightarrow> call \<Rightarrow> registry \<Rightarrow> registry" where
  "set_call cid c s = s\<lparr>calls := (cid, c) # filter (\<lambda>p. fst p \<noteq> cid) (calls s)\<rparr>"

definition end_call :: "nat \<Rightarrow> registry \<Rightarrow> registry" where
  "end_call cid s = s\<lparr>calls := filter (\<lambda>p. fst p \<noteq> cid) (calls s)\<rparr>"

definition run_async :: "string \<Rightarrow> registry \<Rightarrow> registry" where
  "run_async name s =
     s\<lparr>pending := pending s @ [(next_loop s, name)],
       TMP_THREADS := TMP_THREADS s @ [next_loop s],
       next_loop := Suc (next_loop s)\<rparr>"

text \<open>
  The first two lines of the function, run by the thread \<open>cid\<close>:
  \<^verbatim>\<open>result = EVENT_LOOPS.get(name)\<close> and the return of a result that is there. (A thread
  that is inside a call cannot start another.)
\<close>

definition check :: "nat \<Rightarrow> string \<Rightarrow> registry \<Rightarrow> (error + nat) option \<times> registry" where
  "check cid name s =
     (case map_of (calls s) cid of
        Some c \<Rightarrow> (None, s)
      | None \<Rightarrow>
          (case EVENT_LOOPS s name of
             Some result \<Rightarrow> (Some (Inr result), s)
           | None \<Rightarrow> (None, set_call cid (Checked name) s)))"

text \<open>\<^verbatim>\<open>AsyncThread.run_async(async_func_gen)\<close>; the caller then is in \<^verbatim>\<open>time.sleep(1)\<close>.\<close>

definition spawn :: "nat \<Rightarrow> registry \<Rightarrow> registry" where
  "spawn cid s =
     (case map_of (calls s) cid of
        Some (Checked name) \<Rightarrow> set_call cid (Sleeping name) (run_async name s)
      | _ \<Rightarrow> s)"

text \<open>The wait is over: \<^verbatim>\<open>return EVENT_LOOPS[name]\<close>, which raises when the key is missing.\<close>

definition wake :: "nat \<Rightarrow> registry \<Rightarrow> (string \<times> (error + nat)) option \<times> registry" where
  "wake cid s =
     (case map_of (calls s) cid of
        Some (Sleeping name) \<Rightarrow>
          (Some (name, case EVENT_LOOPS s name of None \<Rightarrow> Inl (KeyError name) | Some l \<Rightarrow> Inr l),
           end_call cid s)
      | _ \<Rightarrow> (None, s))"

text \<open>The pending thread with loop \<open>l\<close> runs its generator: \<^verbatim>\<open>EVENT_LOOPS[name] = loop\<close>.\<close>

definition fire :: "nat \<Rightarrow> registry \<Rightarrow> registry" where
  "fire l s =
     (case map_of (pending s) l of
        None \<Rightarrow> s
      | Some name \<Rightarrow> s\<lparr>EVENT_LOOPS := (EVENT_LOOPS s)(name \<mapsto> l),
                       pending := filter (\<lambda>p. fst p \<noteq> l) (pending s)\<rparr>)"

text \<open>
  A history of the registry is a list of steps, each of one thread. Its result is the list
  of the calls that returned or raised, in that order: the caller, the name, and the loop
  returned or the error raised.
\<close>

datatype act = Check nat string | Spawn nat | Wake nat | Fire nat

fun run :: "act list \<Rightarrow> registry \<Rightarrow> (nat \<times> string \<times> (error + nat)) list \<times> registry" where
  "run [] s = ([], s)"
| "run (Check cid name # acts) s =
     (case check cid name s of
        (Some r, s1) \<Rightarrow> (case run acts s1 of (rs, s2) \<Rightarrow> ((cid, name, r) # rs, s2))
      | (None, s1) \<Rightarrow> run acts s1)"
| "run (Spawn cid # acts) s = run acts (spawn cid s)"
| "run (Wake cid # acts) s =
     (case wake cid s of
        (Some (name, r), s1) \<Rightarrow> (case run acts s1 of (rs, s2) \<Rightarrow> ((cid, name, r) # rs, s2))
      | (None, s1) \<Rightarrow> run acts s1)"
| "run (Fire l # acts) s = run acts (fire l s)"

text \<open>
  One call of \<^verbatim>\<open>get_named_event_loop(name)\<close> by the thread \<open>cid\<close>: its three steps, with
  what the other threads do between the first lookup and \<^verbatim>\<open>run_async\<close> (\<open>before\<close>) and
  during the wait (\<open>during\<close>). When the first lookup returns, the two later steps of the
  caller are not there to be taken.
\<close>

definition get_named_event_loop ::
  "nat \<Rightarrow> string \<Rightarrow> act list \<Rightarrow> act list \<Rightarrow> registry \<Rightarrow> (nat \<times> string \<times> (error + nat)) list \<times> registry" where
  "get_named_event_loop cid name before during s =
     run (Check cid name # before @ Spawn cid # during @ [Wake cid]) s"

text \<open>The thread that takes a step of a call; the steps of the list are other threads'.\<close>

fun caller :: "act \<Rightarrow> nat option" where
  "caller (Check cid name) = Some cid"
| "caller (Spawn cid) = Some cid"
| "caller (Wake cid) = Some cid"
| "caller (Fire l) = None"

definition others :: "nat \<Rightarrow> act list \<Rightarrow> bool" where
  "others cid acts = list_all (\<lambda>a. caller a \<noteq> Some cid) acts"

text \<open>No step of the history is a loop thread writing an entry for the name.\<close>

fun quiet :: "string \<Rightarrow> act list \<Rightarrow> registry \<Rightarrow> bool" where
  "quiet name [] s = True"
| "quiet name (a # acts) s =
     ((case a of Fire l \<Rightarrow> map_of (pending s) l \<noteq> Some name | _ \<Rightarrow> True)
      \<and> quiet name acts (snd (run [a] s)))"

text \<open>
  The name is settled on \<open>h\<close>: it is registered with \<open>h\<close>, no started thread is still to
  register it, and no caller has looked it up in vain and is about to start a thread for it.
\<close>

definition settled :: "string \<Rightarrow> nat \<Rightarrow> registry \<Rightarrow> bool" where
  "settled name h s =
     (EVENT_LOOPS s name = Some h \<and> name \<notin> snd ` set (pending s)
      \<and> Checked name \<notin> snd ` set (calls s))"

text \<open>The registry when the module has been loaded: \<^verbatim>\<open>EVENT_LOOPS = {}\<close>, no thread started.\<close>

definition registry_init :: registry where
  "registry_init =
     \<lparr>EVENT_LOOPS = Map.empty, pending = [], TMP_THREADS = [], next_loop = 0, calls = []\<rparr>"

section \<open>Response patcher (ec2\_listener.fix\_creation\_date)\<close>

text \<open>
  \<^verbatim>\<open>
    def fix_creation_date(method, path, response):
        try:
            content = to_str(response._content)
        except Exception:
            LOG.info('Unable to convert EC2 response to string: %s' % response._content)
            return
        response._content = re.sub(r'>\s*([0-9-]+) ([0-9:.]+)Z?\s*</creationTimestamp>',
            r'>\1T\2Z</creationTimestamp>', content, flags=re.DOTALL | re.MULTILINE)
        response.headers['Content-Length'] = str(len(response._content))

    class ProxyListenerEC2(ProxyListener):
        def return_response(self, method, path, data, headers, response):
            if response.content:
                fix_creation_date(method, path, response)
  \<close>
  Python keeps two kinds of strings apart, and so does the model: a \<^verbatim>\<open>bytes\<close> value is
  a list of bytes (\<^typ>\<open>string\<close>, a \<^typ>\<open>char\<close> being eight bits), a \<^verbatim>\<open>str\<close>
  value is a list of code points.
\<close>

type_synonym ustring = "nat list"

text \<open>\<^verbatim>\<open>ord\<close> of a byte or of an ASCII character, and a \<^verbatim>\<open>str\<close> literal.\<close>

definition ord :: "char \<Rightarrow> nat" where
  "ord c = of_char c"

definition ustr :: "string \<Rightarrow> ustring" where
  "ustr s = map ord s"

text \<open>
  Modelled from the spec: \<^verbatim>\<open>to_str\<close> belongs to \<^verbatim>\<open>localstack.utils.common\<close>, which is
  not among the sources. The spec: "given a response byte buffer, attempt to decode it as
  text; on decode failure, log and return the buffer unmodified". The decoding is taken to be
  the one Python applies by default, strict UTF-8: one to four bytes for a code point,
  continuation bytes in \<open>0x80..0xBF\<close>, no overlong form, no surrogate, nothing above
  \<open>U+10FFFF\<close>; \<open>None\<close> is the decode failure. \<open>utf8_encode\<close> is the way back, the
  bytes that a text takes on the wire.
\<close>

definition cont :: "nat \<Rightarrow> bool" where
  "cont b = (128 \<le> b \<and> b \<le> 191)"

fun utf8_decode :: "nat list \<Rightarrow> ustring option" where
  "utf8_decode [] = Some []"
| "utf8_decode (b # bs) =
     (if b < 128 then map_option ((#) b) (utf8_decode bs)
      else if 194 \<le> b \<and> b \<le> 223 then
        (case bs of
           c1 # r \<Rightarrow>
             if cont c1 then map_option ((#) ((b - 192) * 64 + (c1 - 128))) (utf8_decode r)
             else None
         | _ \<Rightarrow> None)
      else if 224 \<le> b \<and> b \<le> 239 then
        (case bs of
           c1 # c2 # r \<Rightarrow>
             if (if b = 224 then 160 \<le> c1 \<and> c1 \<le> 191
                 else if b = 237 then 128 \<le> c1 \<and> c1 \<le> 159 else cont c1) \<and> cont c2
             then map_option ((#) ((b - 224) * 4096 + (c1 - 128) * 64 + (c2 - 128))) (utf8_decode r)
             else None
         | _ \<Rightarrow> None)
      else if 240 \<le> b \<and> b \<le> 244 then
        (case bs of
           c1 # c2 # c3 # r \<Rightarrow>
             if (if b = 240 then 144 \<le> c1 \<and> c1 \<le> 191
                 else if b = 244 then 128 \<le> c1 \<and> c1 \<le> 143 else cont c1) \<and> cont c2 \<and> cont c3
             then map_option ((#) ((b - 240) * 262144 + (c1 - 128) * 4096 + (c2 - 128) * 64 + (c3 - 128)))
                    (utf8_decode r)
             else None
         | _ \<Rightarrow> None)
      else None)"

fun utf8_encode :: "ustring \<Rightarrow> nat list" where
  "utf8_encode [] = []"
| "utf8_encode (c # cs) =
     (if c < 128 then [c]
      else if c < 2048 then [192 + c div 64, 128 + c mod 64]
      else if c < 65536 then [224 + c div 4096, 128 + c div 64 mod 64, 128 + c mod 64]
      else [240 + c div 262144, 128 + c div 4096 mod 64, 128 + c div 64 mod 64, 128 + c mod 64])
     @ utf8_encode cs"

text \<open>
  The character classes of the pattern. \<^verbatim>\<open>\s\<close> in a \<^verbatim>\<open>str\<close> pattern is Unicode white
  space (what \<^verbatim>\<open>str.isspace\<close> accepts); \<^verbatim>\<open>[0-9-]\<close> and \<^verbatim>\<open>[0-9:.]\<close> are the ASCII
  digits with the characters listed.
\<close>

definition is_space :: "nat \<Rightarrow> bool" where
  "is_space c =
     ((9 \<le> c \<and> c \<le> 13) \<or> (28 \<le> c \<and> c \<le> 32) \<or> c = 133 \<or> c = 160 \<or> c = 5760
      \<or> (8192 \<le> c \<and> c \<le> 8202) \<or> c = 8232 \<or> c = 8233 \<or> c = 8239 \<or> c = 8287 \<or> c = 12288)"

definition is_digit :: "nat \<Rightarrow> bool" where
  "is_digit c = (ord (CHR ''0'') \<le> c \<and> c \<le> ord (CHR ''9''))"

definition date_class :: "nat \<Rightarrow> bool" where
  "date_class c = (is_digit c \<or> c = ord (CHR ''-''))"

definition time_class :: "nat \<Rightarrow> bool" where
  "time_class c = (is_digit c \<or> c = ord (CHR '':'') \<or> c = ord (CHR ''.''))"

text \<open>
  The pattern is a sequence of nodes of four kinds: a literal character, a greedy
  \<^verbatim>\<open>cls*\<close>, a capturing group around a greedy \<^verbatim>\<open>cls+\<close>, and an optional character
  \<^verbatim>\<open>c?\<close>. (The flags \<^verbatim>\<open>DOTALL\<close> and \<^verbatim>\<open>MULTILINE\<close> change the meaning of
  \<^verbatim>\<open>.\<close>, \<^verbatim>\<open>^\<close> and \<^verbatim>\<open>$\<close>, which the pattern does not use.)

  \<open>greedy P k acc s\<close> is the repetition as a backtracking matcher runs it: take one more
  character of the class while the attempt with more succeeds, else go on with the rest of
  the pattern (the continuation \<open>k\<close>, given the characters taken and the remaining
  input) from here. \<open>rmatch ns s\<close> matches the nodes \<open>ns\<close> at the start of \<open>s\<close> and
  gives the texts of the groups, in order, and the input left after the match.
\<close>

datatype node = Literal nat | Star "nat \<Rightarrow> bool" | Group_Plus "nat \<Rightarrow> bool" | Optional nat

fun greedy :: "(nat \<Rightarrow> bool) \<Rightarrow> (ustring \<Rightarrow> ustring \<Rightarrow> 'r option) \<Rightarrow> ustring \<Rightarrow> ustring \<Rightarrow> 'r option" where
  "greedy P k acc [] = k acc []"
| "greedy P k acc (x # xs) =
     (if P x
      then (case greedy P k (acc @ [x]) xs of
              Some r \<Rightarrow> Some r
            | None \<Rightarrow> k acc (x # xs))
      else k acc (x # xs))"

fun rmatch :: "node list \<Rightarrow> ustring \<Rightarrow> (ustring list \<times> ustring) option" where
  "rmatch [] s = Some ([], s)"
| "rmatch (Literal c # ns) s =
     (case s of [] \<Rightarrow> None | x # xs \<Rightarrow> if x = c then rmatch ns xs else None)"
| "rmatch (Star P # ns) s = greedy P (\<lambda>acc rest. rmatch ns rest) [] s"
| "rmatch (Group_Plus P # ns) s =
     (case s of
        [] \<Rightarrow> None
      | x # xs \<Rightarrow>
          if P x
          then greedy P (\<lambda>acc rest. map_option (\<lambda>(gs, r). (acc # gs, r)) (rmatch ns rest)) [x] xs
          else None)"
| "rmatch (Optional c # ns) s =
     (case s of
        [] \<Rightarrow> rmatch ns []
      | x # xs \<Rightarrow>
          if x = c
          then (case rmatch ns xs of Some r \<Rightarrow> Some r | None \<Rightarrow> rmatch ns s)
          else rmatch ns s)"

text \<open>
  The replacement template is a sequence of literal texts and group references
  \<^verbatim>\<open>\1\<close>, \<^verbatim>\<open>\2\<close>. (A reference to a group that the pattern does not have is
  refused by Python when the template is compiled; the model gives it the empty text.)
\<close>

datatype piece = Chars ustring | Group nat

fun expand :: "piece list \<Rightarrow> ustring list \<Rightarrow> ustring" where
  "expand [] gs = []"
| "expand (Chars w # ps) gs = w @ expand ps gs"
| "expand (Group n # ps) gs = (if 0 < n \<and> n \<le> length gs then gs ! (n - 1) else []) @ expand ps gs"

text \<open>
  \<^verbatim>\<open>re.sub\<close>: scan from the left; where the pattern matches, emit the expanded template
  and go on after the match; where it does not, copy one character. A match of the empty
  text is replaced too, the next character is copied and the scan goes on behind it.
\<close>

fun re_sub :: "node list \<Rightarrow> piece list \<Rightarrow> ustring \<Rightarrow> ustring" where
  "re_sub rx repl [] = (case rmatch rx [] of Some (gs, rest) \<Rightarrow> expand repl gs | None \<Rightarrow> [])"
| "re_sub rx repl (x # xs) =
     (case rmatch rx (x # xs) of
        Some (gs, rest) \<Rightarrow>
          if length rest < length (x # xs) then expand repl gs @ re_sub rx repl rest
          else expand repl gs @ x # re_sub rx repl xs
      | None \<Rightarrow> x # re_sub rx repl xs)"

text \<open>
  The pattern \<^verbatim>\<open>>\s*([0-9-]+) ([0-9:.]+)Z?\s*</creationTimestamp>\<close> and the template
  \<^verbatim>\<open>>\1T\2Z</creationTimestamp>\<close>.
\<close>

definition closing_tag :: ustring where
  "closing_tag = ustr ''</creationTimestamp>''"

definition creation_rx :: "node list" where
  "creation_rx =
     [Literal (ord (CHR ''>'')), Star is_space, Group_Plus date_class, Literal (ord (CHR '' '')),
      Group_Plus time_class, Optional (ord (CHR ''Z'')), Star is_space]
     @ map Literal closing_tag"

definition creation_repl :: "piece list" where
  "creation_repl = [Chars (ustr ''>''), Group 1, Chars (ustr ''T''), Group 2, Chars (ustr ''Z</creationTimestamp>'')]"

text \<open>
  The response: its \<^verbatim>\<open>_content\<close>, which is \<^verbatim>\<open>bytes\<close> as it arrives and a \<^verbatim>\<open>str\<close>
  once \<^verbatim>\<open>fix_creation_date\<close> has stored the result of \<^verbatim>\<open>re.sub\<close>, and its headers.
  \<^verbatim>\<open>to_str\<close> decodes \<^verbatim>\<open>bytes\<close> and returns a \<^verbatim>\<open>str\<close> as it is; \<open>to_bytes\<close> is
  the content as bytes; \<open>len\<close> is Python's \<^verbatim>\<open>len\<close>, the number of bytes of a
  \<^verbatim>\<open>bytes\<close> value and the number of code points of a \<^verbatim>\<open>str\<close>. The headers are a
  map from names to values; the only name the code uses is \<^verbatim>\<open>Content-Length\<close>, in this
  spelling.
\<close>

datatype content = Bytes string | Str ustring

record response =
  content :: content
  headers :: "string \<rightharpoonup> string"

fun to_str :: "content \<Rightarrow> ustring option" where
  "to_str (Bytes bs) = utf8_decode (map ord bs)"
| "to_str (Str s) = Some s"

fun to_bytes :: "content \<Rightarrow> nat list" where
  "to_bytes (Bytes bs) = map ord bs"
| "to_bytes (Str s) = utf8_encode s"

fun len :: "content \<Rightarrow> nat" where
  "len (Bytes bs) = length bs"
| "len (Str s) = length s"

text \<open>\<^verbatim>\<open>str(n)\<close> for a natural number: its decimal digits.\<close>

definition digit :: "nat \<Rightarrow> char" where
  "digit d = ''0123456789'' ! d"

function str_of_nat :: "nat \<Rightarrow> string" where
  "str_of_nat n =
     (if n < 10 then [digit n] else str_of_nat (n div 10) @ [digit (n mod 10)])"
  by pat_completeness auto
termination
  by (relation "measure id") auto

text \<open>
  The function itself. On a decode failure it logs and returns: the response stays as it
  is. Otherwise the response gets the rewritten text and, from the length of that text, the
  header.
\<close>

definition fix_creation_date :: "string \<Rightarrow> string \<Rightarrow> response \<Rightarrow> response" where
  "fix_creation_date method path response =
     (case to_str (content response) of
        None \<Rightarrow> response
      | Some text \<Rightarrow>
          (let r1 = response\<lparr>content := Str (re_sub creation_rx creation_repl text)\<rparr>
           in r1\<lparr>headers := (headers r1)(''Content-Length'' \<mapsto> str_of_nat (len (content r1)))\<rparr>))"

text \<open>\<^verbatim>\<open>return_response\<close> calls it for every response whose content is not empty.\<close>

definition return_response :: "string \<Rightarrow> string \<Rightarrow> 'd \<Rightarrow> 'h \<Rightarrow> response \<Rightarrow> response" where
  "return_response method path data hdrs response =
     (if len (content response) \<noteq> 0 then fix_creation_date method path response else response)"

text \<open>
  For the proofs: the same match computed in one pass, without backtracking. The classes of
  the pattern are such that no repetition can give a character back (what follows a
  repetition never starts with a character of its class), so the greedy choice is the only
  one; \<open>rmatch_scan\<close> below proves that \<open>rmatch\<close> on the pattern and \<open>scan\<close> agree.
\<close>

definition strip_Z :: "ustring \<Rightarrow> ustring" where
  "strip_Z s = (case s of [] \<Rightarrow> [] | x # xs \<Rightarrow> if x = ord (CHR ''Z'') then xs else s)"

definition scan :: "ustring \<Rightarrow> (ustring \<times> ustring \<times> ustring) option" where
  "scan s =
     (case s of
        [] \<Rightarrow> None
      | x # s1 \<Rightarrow>
          if x \<noteq> ord (CHR ''>'') then None
          else
            let s2 = dropWhile is_space s1; d = takeWhile date_class s2
            in if d = [] then None
               else (case dropWhile date_class s2 of
                       [] \<Rightarrow> None
                     | y # s4 \<Rightarrow>
                         if y \<noteq> ord (CHR '' '') then None
                         else
                           let t = takeWhile time_class s4;
                               s7 = dropWhile is_space (strip_Z (dropWhile time_class s4))
                           in if t = [] then None
                              else if take (length closing_tag) s7 = closing_tag
                              then Some (d, t, drop (length closing_tag) s7)
                              else None))"

text \<open>
  What the spec calls the pattern, said without a matcher: \<open>occurrence m d t\<close> holds when
  the text \<open>m\<close> is \<^verbatim>\<open>>\<close>, white space, the date \<open>d\<close> (digits and dashes, at least
  one), one space, the time \<open>t\<close> (digits, colons and dots, at least one), at most one
  \<^verbatim>\<open>Z\<close>, white space, and the closing tag. \<open>occurs_in c\<close>: some part of \<open>c\<close> is an
  occurrence.
\<close>

definition occurrence :: "ustring \<Rightarrow> ustring \<Rightarrow> ustring \<Rightarrow> bool" where
  "occurrence m d t =
     (\<exists>ws1 z ws2.
        m = ord (CHR ''>'') # ws1 @ d @ ord (CHR '' '') # t @ z @ ws2 @ closing_tag
        \<and> list_all is_space ws1 \<and> d \<noteq> [] \<and> list_all date_class d
        \<and> t \<noteq> [] \<and> list_all time_class t
        \<and> (z = [] \<or> z = [ord (CHR ''Z'')]) \<and> list_all is_space ws2)"

definition occurs_in :: "ustring \<Rightarrow> bool" where
  "occurs_in c = (\<exists>pre m d t post. occurrence m d t \<and> c = pre @ m @ post)"

text \<open>
  What the spec asks of the result. \<open>stamp d t\<close> is date, \<^verbatim>\<open>T\<close>, time and one
  \<^verbatim>\<open>Z\<close>. \<open>rewritten c c'\<close> holds when \<open>c'\<close> is \<open>c\<close> with every occurrence replaced,
  the occurrences being taken from the left and not overlapping: either \<open>c\<close> has none and
  \<open>c' = c\<close>, or \<open>c\<close> is \<open>pre @ m @ post\<close> where \<open>m\<close> is an occurrence, no occurrence
  starts further left, and \<open>c'\<close> is \<open>pre\<close>, then \<^verbatim>\<open>>\<close>, the stamp and the closing tag,
  then \<open>post\<close> rewritten.
\<close>

definition stamp :: "ustring \<Rightarrow> ustring \<Rightarrow> ustring" where
  "stamp d t = d @ ord (CHR ''T'') # t @ [ord (CHR ''Z'')]"

inductive rewritten :: "ustring \<Rightarrow> ustring \<Rightarrow> bool" where
  rewritten_none: "\<not> occurs_in c \<Longrightarrow> rewritten c c"
| rewritten_step:
    "occurrence m d t
     \<Longrightarrow> (\<forall>pre' m' d' t' post'.
            occurrence m' d' t' \<and> pre @ m @ post = pre' @ m' @ post' \<longrightarrow> length pre \<le> length pre')
     \<Longrightarrow> rewritten post post'
     \<Longrightarrow> rewritten (pre @ m @ post) (pre @ ord (CHR ''>'') # stamp d t @ closing_tag @ post')"

text \<open>\<^verbatim>\<open>re.search\<close>: whether the pattern matches somewhere in the text.\<close>

fun re_search :: "node list \<Rightarrow> ustring \<Rightarrow> bool" where
  "re_search rx [] = (rmatch rx [] \<noteq> None)"
| "re_search rx (x # xs) = (rmatch rx (x # xs) \<noteq> None \<or> re_search rx xs)"

text \<open>
  The shape \<^verbatim>\<open>YYYY-MM-DDTHH:MM:SS[.ffffff]Z\<close>. \<open>shaped\<close> compares a text with a picture
  in which \<^verbatim>\<open>d\<close> stands for a digit and every other character for itself. The fraction,
  when there is one, is a dot and at least one digit.
\<close>

fun shaped :: "string \<Rightarrow> ustring \<Rightarrow> bool" where
  "shaped [] [] = True"
| "shaped (p # ps) (c # cs) = ((if p = CHR ''d'' then is_digit c else c = ord p) \<and> shaped ps cs)"
| "shaped ps cs = False"

definition is_iso_date :: "ustring \<Rightarrow> bool" where
  "is_iso_date d = shaped ''dddd-dd-dd'' d"

definition is_iso_time :: "ustring \<Rightarrow> bool" where
  "is_iso_time t =
     (shaped ''dd:dd:dd'' (take 8 t)
      \<and> (case drop 8 t of [] \<Rightarrow> True | c # f \<Rightarrow> c = ord (CHR ''.'') \<and> f \<noteq> [] \<and> list_all is_digit f))"

definition iso_timestamp :: "ustring \<Rightarrow> bool" where
  "iso_timestamp x =
     (is_iso_date (take 10 x) \<and> take 1 (drop 10 x) = [ord (CHR ''T'')]
      \<and> is_iso_time (butlast (drop 11 x)) \<and> drop 11 x \<noteq> [] \<and> last x = ord (CHR ''Z''))"

section \<open>Properties of the supervised loop thread\<close>

lemma stop_twice: "stop (stop t) = stop t"
  by (simp add: stop_def split: option.splits)

lemma stop_no_event: "shutdown_event t = None \<Longrightarrow> stop t = t"
  by (simp add: stop_def)

lemma stop_sets: "shutdown_event t = Some ev \<Longrightarrow> ev < length (events t) \<Longrightarrow> is_set (stop t) ev"
  by (simp add: stop_def is_set_def)

lemma stop_keeps_set:
  assumes set: "is_set t ev"
  shows "is_set (stop t) ev"
proof (cases "shutdown_event t")
  case None
  with set show ?thesis by (simp add: stop_def)
next
  case (Some e)
  show ?thesis
  proof (cases "e = ev")
    case True
    with Some set show ?thesis by (simp add: stop_def is_set_def)
  next
    case False
    with Some set show ?thesis by (simp add: stop_def is_set_def)
  qed
qed

lemma run_func_keeps_set: "is_set t ev \<Longrightarrow> is_set (run_func own t) ev"
  by (auto simp: run_func_def is_set_def Let_def nth_append split: option.splits gen_result.splits)

lemma step_keeps_set: "is_set t ev \<Longrightarrow> is_set (step a t) ev"
  by (cases a) (auto simp: stop_keeps_set run_func_keeps_set, auto simp: is_set_def)

lemma exec_keeps_set: "is_set t ev \<Longrightarrow> is_set (exec as t) ev"
  by (induction as arbitrary: t) (simp_all add: step_keeps_set)

text \<open>
  The thread's reference always points into the store: \<^verbatim>\<open>run_func\<close> stores the event it
  has just made, and \<^verbatim>\<open>stop\<close> clears the field.
\<close>

definition ref_ok :: "async_thread \<Rightarrow> bool" where
  "ref_ok t = (case shutdown_event t of None \<Rightarrow> True | Some ev \<Rightarrow> ev < length (events t))"

lemma ref_ok_init: "ref_ok (AsyncThread_init gen lp)"
  by (simp add: ref_ok_def AsyncThread_init_def)

lemma ref_ok_step: "ref_ok t \<Longrightarrow> ref_ok (step a t)"
  by (cases a)
     (auto simp: ref_ok_def run_func_def stop_def Let_def split: option.splits gen_result.splits)

lemma ref_ok_exec: "ref_ok t \<Longrightarrow> ref_ok (exec as t)"
  by (induction as arbitrary: t) (simp_all add: ref_ok_step)

lemma stop_clears: "shutdown_event (stop t) = None"
  by (simp add: stop_def split: option.splits)






text \<open>
  An async function that awaits the event stays under \<^verbatim>\<open>run_until_complete\<close> until
  \<^verbatim>\<open>stop()\<close> has set the event: through such code, and only through it, \<^verbatim>\<open>stop()\<close> has
  an effect on where the thread is.
\<close>

lemma waiting_coroutine:
  "phase (exec [Enter 0, Complete] (AsyncThread_init (Some (\<lambda>l ev. Coroutine True)) None)) = Completing
   \<and> phase (exec [Enter 0, Stop, Complete] (AsyncThread_init (Some (\<lambda>l ev. Coroutine True)) None)) = Serving"
  by (simp add: AsyncThread_init_def run_func_def stop_def is_set_def)

text \<open>
  C8. \<^verbatim>\<open>stop()\<close> is idempotent and the shutdown signal is one-way. For every state \<open>t\<close>
  that a thread built by the constructor can reach: calling \<^verbatim>\<open>stop()\<close> twice gives the
  state that calling it once gives (there is no raise in \<^verbatim>\<open>stop\<close>, it is a total
  function of the state); with no event pending (\<^verbatim>\<open>shutdown_event\<close> is \<^verbatim>\<open>None\<close>) it
  changes nothing; with an event pending it sets that event and clears the reference; and
  an event that is set stays set whatever happens afterwards (further \<^verbatim>\<open>stop()\<close> calls,
  loop iterations, \<^verbatim>\<open>run_func\<close> making its own new event).
\<close>

theorem stop_idempotent_one_way:
  assumes "t = exec as (AsyncThread_init gen lp)"
  shows "stop (stop t) = stop t
       \<and> (shutdown_event t = None \<longrightarrow> stop t = t)
       \<and> (\<forall>ev. shutdown_event t = Some ev \<longrightarrow> is_set (stop t) ev \<and> shutdown_event (stop t) = None)
       \<and> (\<forall>ev bs. is_set t ev \<longrightarrow> is_set (exec bs t) ev)"
proof -
  have ok: "ref_ok t"
    using assms ref_ok_exec [OF ref_ok_init] by simp
  have "\<And>ev. shutdown_event t = Some ev \<Longrightarrow> is_set (stop t) ev"
    using ok by (simp add: ref_ok_def stop_sets)
  then show ?thesis
    by (simp add: stop_twice stop_no_event stop_clears exec_keeps_set)
qed

theorem stop_idempotent_one_way_witness:
  "shutdown_event (exec [Enter 7] (AsyncThread_init None None)) = Some 0
   \<and> is_set (stop (exec [Enter 7] (AsyncThread_init None None))) 0
   \<and> stop (stop (exec [Enter 7] (AsyncThread_init None None)))
       = stop (exec [Enter 7] (AsyncThread_init None None))
   \<and> is_set (exec [Tick, Stop] (stop (exec [Enter 7] (AsyncThread_init None None)))) 0"
  using stop_idempotent_one_way [of "exec [Enter 7] (AsyncThread_init None None)" "[Enter 7]" None None]
  by (simp add: AsyncThread_init_def run_func_def stop_def is_set_def)




section \<open>Properties of the shutdown-aware poll\<close>





lemma get_never_raises_Exception: "fst (get q script) = Raised e \<Longrightarrow> \<not> is_Exception e"
proof (induction script arbitrary: q)
  case Nil
  then show ?case by simp
next
  case (Cons a script)
  obtain stopped ev where a: "a = (stopped, ev)" by (cases a)
  obtain r q' lg where tb: "try_body stopped q ev = (r, q', lg)" by (cases "try_body stopped q ev")
  show ?case
  proof (cases r)
    case (Inr v)
    with a tb Cons.prems show ?thesis by simp
  next
    case (Inl e')
    show ?thesis
    proof (cases "is_Exception e'")
      case True
      obtain res q'' lg' where g: "get q' script = (res, q'', lg')" by (cases "get q' script")
      with a tb Inl True Cons.prems have "fst (get q' script) = Raised e" by simp
      then show ?thesis by (rule Cons.IH)
    next
      case False
      with a tb Inl Cons.prems show ?thesis by simp
    qed
  qed
qed

lemma get_retry:
  "try_body False q ev = (Inl e, q', lg) \<Longrightarrow> is_Exception e
   \<Longrightarrow> fst (get q ((False, ev) # rest)) = fst (get q' rest)"
  by (simp split: prod.splits)







text \<open>
  C7, as the spec has it, fails in its second part: a fault of the queue that is not a
  timeout does not reach the caller; the loop retries, and here the next iteration finds
  the stop flag set and returns the absent result.
\<close>

theorem fault_propagates_counterexample:
  "fst (receive_from_queue ([]::nat list) [(False, Fails StoreError), (True, Quiet)]) = Returned None"
  by (simp add: receive_from_queue_def try_body_def)

text \<open>
  C7, amended. A timeout of one attempt is not an error: the loop goes on with the next
  iteration. The same holds for every other exception of the \<^verbatim>\<open>Exception\<close> hierarchy
  that an attempt raises, faults of the queue included: \<^verbatim>\<open>except Exception: pass\<close>
  swallows it and the loop retries. What \<^verbatim>\<open>receive_from_queue\<close> can raise is therefore
  never an \<^verbatim>\<open>Exception\<close>.
\<close>

theorem receive_from_queue_swallows:
  "fst (receive_from_queue [] ((False, Quiet) # rest)) = fst (receive_from_queue [] rest)
   \<and> (is_Exception e \<longrightarrow>
        fst (receive_from_queue q ((False, Fails e) # rest)) = fst (receive_from_queue q rest))
   \<and> (\<forall>e'. fst (receive_from_queue q script) = Raised e' \<longrightarrow> \<not> is_Exception e')"
proof -
  have "fst (get [] ((False, Quiet) # rest)) = fst (get ([]::'a list) rest)"
    by (rule get_retry [where e = QueueEmpty]) (simp_all add: try_body_def)
  moreover have "is_Exception e \<Longrightarrow> fst (get q ((False, Fails e) # rest)) = fst (get q rest)"
    by (rule get_retry [where e = e]) (simp_all add: try_body_def)
  ultimately show ?thesis
    using get_never_raises_Exception [of q script]
    by (simp add: receive_from_queue_def)
qed

theorem receive_from_queue_swallows_witness:
  "is_Exception StoreError
   \<and> fst (receive_from_queue [] [(False, Quiet), (False, Arrives (5::nat))]) = Returned (Some 5)
   \<and> fst (receive_from_queue [] [(False, Fails StoreError), (False, Arrives (5::nat))])
       = fst (receive_from_queue [] [(False, Arrives (5::nat))])
   \<and> fst (receive_from_queue [] [(False, Fails BaseOnly), (False, Arrives (5::nat))]) = Raised BaseOnly"
  using receive_from_queue_swallows
          [of "[(False, Arrives (5::nat))]" StoreError "[]" "[(False, Fails BaseOnly), (False, Arrives 5)]"]
  by (simp add: receive_from_queue_def try_body_def)

section \<open>Properties of the worker pool\<close>

lemma submit_route:
  "fst (submit task p) =
     (if (case idle_semaphore p of Some n \<Rightarrow> 0 < n | None \<Rightarrow> threads p < max_workers p)
      then Persistent else Transient)"
  by (simp add: submit_def has_idle_threads_def split: option.splits)

lemma submit_no_permit:
  "idle_semaphore p = Some 0 \<Longrightarrow>
   submit task p = (Transient, p\<lparr>transient := transient p @ [task]\<rparr>)"
  by (simp add: submit_def has_idle_threads_def start_worker_thread_def)

lemma submit_all_no_permit:
  "idle_semaphore p = Some 0 \<Longrightarrow>
   submit_all tasks p = (replicate (length tasks) Transient, p\<lparr>transient := transient p @ tasks\<rparr>)"
proof (induction tasks arbitrary: p)
  case Nil
  then show ?case by simp
next
  case (Cons task tasks)
  let ?p1 = "p\<lparr>transient := transient p @ [task]\<rparr>"
  from Cons.prems have "idle_semaphore ?p1 = Some 0" by simp
  from Cons.IH [OF this] Cons.prems show ?case by (simp add: submit_no_permit)
qed

text \<open>
  C4. An executor that has the semaphore starts with no permit and no thread. Every task
  submitted to such a pool gets a transient thread of its own: no persistent thread is ever
  started, although the pool has fewer persistent threads (none) than \<^verbatim>\<open>core_size\<close>.
\<close>

theorem fresh_pool_never_persistent:
  "fst (submit_all tasks (AdaptiveThreadPool_init True cs)) = replicate (length tasks) Transient
   \<and> threads (snd (submit_all tasks (AdaptiveThreadPool_init True cs :: 'a pool))) = 0
   \<and> 0 < core_size (AdaptiveThreadPool_init True cs :: 'a pool)"
proof -
  have "idle_semaphore (AdaptiveThreadPool_init True cs :: 'a pool) = Some 0"
    by (simp add: AdaptiveThreadPool_init_def Let_def)
  from submit_all_no_permit [OF this, of tasks] show ?thesis
    by (simp add: AdaptiveThreadPool_init_def Let_def DEFAULT_CORE_POOL_SIZE_def split: option.splits)
qed

section \<open>Properties of the registry\<close>

lemma run_append:
  "run (xs @ ys) s =
     (case run xs s of (l1, s1) \<Rightarrow> (case run ys s1 of (l2, s2) \<Rightarrow> (l1 @ l2, s2)))"
proof (induction xs arbitrary: s)
  case Nil
  then show ?case by (simp split: prod.splits)
next
  case (Cons a xs)
  show ?case
    by (cases a) (auto simp: Cons split: prod.splits option.splits)
qed

lemma fire_other:
  "map_of (pending s) l \<noteq> Some name \<Longrightarrow> EVENT_LOOPS (fire l s) name = EVENT_LOOPS s name"
  by (auto simp: fire_def split: option.splits)

lemma fire_pending_subset: "set (pending (fire l s)) \<subseteq> set (pending s)"
  by (auto simp: fire_def split: option.splits)

lemma fire_calls: "calls (fire l s) = calls s"
  by (simp add: fire_def split: option.splits)

lemma map_of_snd: "map_of ps l = Some name \<Longrightarrow> name \<in> snd ` set ps"
  by (metis map_of_SomeD snd_conv image_eqI)

lemma fire_settled: "settled name h s \<Longrightarrow> settled name h (fire l s)"
proof -
  assume st: "settled name h s"
  then have "map_of (pending s) l \<noteq> Some name"
    by (auto simp: settled_def dest: map_of_snd)
  then have "EVENT_LOOPS (fire l s) name = EVENT_LOOPS s name" by (rule fire_other)
  moreover have "snd ` set (pending (fire l s)) \<subseteq> snd ` set (pending s)"
    using fire_pending_subset [of l s] by blast
  ultimately show ?thesis using st by (auto simp: settled_def fire_calls)
qed

lemma registered_returns:
  "EVENT_LOOPS s name = Some h \<Longrightarrow> map_of (calls s) cid = None
   \<Longrightarrow> check cid name s = (Some (Inr h), s)"
  by (simp add: check_def)

lemma check_settled: "settled name h s \<Longrightarrow> settled name h (snd (check cid name' s))"
  by (auto simp: check_def settled_def set_call_def split: option.splits)

lemma check_result:
  "settled name h s \<Longrightarrow> check cid name s = (Some r, s1) \<Longrightarrow> r = Inr h"
  by (auto simp: check_def settled_def split: option.splits)

lemma spawn_settled: "settled name h s \<Longrightarrow> settled name h (spawn cid s)"
proof (cases "map_of (calls s) cid")
  case None
  assume "settled name h s"
  with None show ?thesis by (simp add: spawn_def)
next
  case (Some c)
  assume st: "settled name h s"
  show ?thesis
  proof (cases c)
    case (Sleeping n)
    with Some st show ?thesis by (simp add: spawn_def)
  next
    case (Checked n)
    from Some Checked have "Checked n \<in> snd ` set (calls s)" by (auto dest: map_of_snd)
    with st have "n \<noteq> name" by (auto simp: settled_def)
    with st Some Checked show ?thesis
      by (auto simp: spawn_def settled_def set_call_def run_async_def)
  qed
qed

lemma wake_settled: "settled name h s \<Longrightarrow> settled name h (snd (wake cid s))"
  by (auto simp: wake_def settled_def end_call_def split: option.splits call.splits)

lemma wake_result:
  "settled name h s \<Longrightarrow> wake cid s = (Some (name, r), s1) \<Longrightarrow> r = Inr h"
  by (auto simp: wake_def settled_def split: option.splits call.splits)

lemma run_settled:
  "settled name h s \<Longrightarrow>
   settled name h (snd (run acts s))
   \<and> (\<forall>cid r. (cid, name, r) \<in> set (fst (run acts s)) \<longrightarrow> r = Inr h)"
proof (induction acts arbitrary: s)
  case Nil
  then show ?case by simp
next
  case (Cons a acts)
  show ?case
  proof (cases a)
    case (Fire l)
    from Cons.prems have "settled name h (fire l s)" by (rule fire_settled)
    from Cons.IH [OF this] Fire show ?thesis by simp
  next
    case (Spawn cid)
    from Cons.prems have "settled name h (spawn cid s)" by (rule spawn_settled)
    from Cons.IH [OF this] Spawn show ?thesis by simp
  next
    case (Check cid name')
    obtain r s1 where c: "check cid name' s = (r, s1)" by (cases "check cid name' s")
    from check_settled [OF Cons.prems, of cid name'] c have st1: "settled name h s1" by simp
    obtain rs s2 where rn: "run acts s1 = (rs, s2)" by (cases "run acts s1")
    show ?thesis
    proof (cases r)
      case None
      with Cons.IH [OF st1] Check c rn show ?thesis by simp
    next
      case (Some v)
      have "name' = name \<Longrightarrow> v = Inr h"
        using check_result [OF Cons.prems, of cid v s1] c Some by simp
      with Cons.IH [OF st1] Check c rn Some show ?thesis by auto
    qed
  next
    case (Wake cid)
    obtain r s1 where w: "wake cid s = (r, s1)" by (cases "wake cid s")
    from wake_settled [OF Cons.prems, of cid] w have st1: "settled name h s1" by simp
    obtain rs s2 where rn: "run acts s1 = (rs, s2)" by (cases "run acts s1")
    show ?thesis
    proof (cases r)
      case None
      with Cons.IH [OF st1] Wake w rn show ?thesis by simp
    next
      case (Some p)
      obtain n v where p: "p = (n, v)" by (cases p)
      have "n = name \<Longrightarrow> v = Inr h"
        using wake_result [OF Cons.prems, of cid v s1] w Some p by simp
      with Cons.IH [OF st1] Wake w rn Some p show ?thesis by auto
    qed
  qed
qed

text \<open>Only a loop thread writes the dictionary; the steps of the callers leave it alone.\<close>

lemma step_loops:
  "(case a of Fire l \<Rightarrow> map_of (pending s) l \<noteq> Some name | _ \<Rightarrow> True)
   \<Longrightarrow> EVENT_LOOPS (snd (run [a] s)) name = EVENT_LOOPS s name"
  by (cases a)
     (auto simp: check_def spawn_def wake_def set_call_def end_call_def run_async_def fire_other
           split: option.splits call.splits prod.splits)

lemma quiet_loops:
  "quiet name acts s \<Longrightarrow> EVENT_LOOPS (snd (run acts s)) name = EVENT_LOOPS s name"
proof (induction acts arbitrary: s)
  case Nil
  then show ?case by simp
next
  case (Cons a acts)
  from Cons.prems have 1: "EVENT_LOOPS (snd (run [a] s)) name = EVENT_LOOPS s name"
    by (simp add: step_loops)
  from Cons.prems have "quiet name acts (snd (run [a] s))" by simp
  from Cons.IH [OF this] 1
  have "EVENT_LOOPS (snd (run acts (snd (run [a] s)))) name = EVENT_LOOPS s name" by simp
  moreover have "snd (run (a # acts) s) = snd (run acts (snd (run [a] s)))"
    using run_append [of "[a]" acts s] by (simp split: prod.splits)
  ultimately show ?case by simp
qed

lemma quiet_append:
  "quiet name (xs @ ys) s \<longleftrightarrow> quiet name xs s \<and> quiet name ys (snd (run xs s))"
proof (induction xs arbitrary: s)
  case Nil
  then show ?case by simp
next
  case (Cons a xs)
  have "snd (run (a # xs) s) = snd (run xs (snd (run [a] s)))"
    using run_append [of "[a]" xs s] by (simp split: prod.splits)
  with Cons [of "snd (run [a] s)"] show ?case by auto
qed

text \<open>The steps of other threads leave the call of \<open>cid\<close> where it is, and log nothing for it.\<close>

lemma map_of_filter_other: "c \<noteq> cid \<Longrightarrow> map_of (filter (\<lambda>p. fst p \<noteq> c) ps) cid = map_of ps cid"
  by (induction ps) auto

lemma other_step:
  "caller a \<noteq> Some cid \<Longrightarrow>
   map_of (calls (snd (run [a] s))) cid = map_of (calls s) cid
   \<and> (\<forall>n r. (cid, n, r) \<notin> set (fst (run [a] s)))"
  by (cases a)
     (auto simp: check_def spawn_def wake_def set_call_def end_call_def run_async_def fire_calls
                 map_of_filter_other
           split: option.splits call.splits prod.splits)

lemma others_run:
  "others cid acts \<Longrightarrow>
   map_of (calls (snd (run acts s))) cid = map_of (calls s) cid
   \<and> (\<forall>n r. (cid, n, r) \<notin> set (fst (run acts s)))"
proof (induction acts arbitrary: s)
  case Nil
  then show ?case by simp
next
  case (Cons a acts)
  from Cons.prems have a: "caller a \<noteq> Some cid" and o: "others cid acts"
    by (simp_all add: others_def)
  obtain l1 s1 where r1: "run [a] s = (l1, s1)" by (cases "run [a] s")
  obtain l2 s2 where r2: "run acts s1 = (l2, s2)" by (cases "run acts s1")
  have r: "run (a # acts) s = (l1 @ l2, s2)"
    using run_append [of "[a]" acts s] r1 r2 by simp
  from other_step [OF a, of s] r1
  have 1: "map_of (calls s1) cid = map_of (calls s) cid" "\<forall>n r. (cid, n, r) \<notin> set l1" by simp_all
  from Cons.IH [OF o, of s1] r2
  have 2: "map_of (calls s2) cid = map_of (calls s1) cid" "\<forall>n r. (cid, n, r) \<notin> set l2" by simp_all
  from 1 2 r show ?case by auto
qed

text \<open>
  C9, as the spec has it, fails in its second half. Two callers look the name up before
  either has started its thread, so two loop threads are started (loops 0 and 1). Thread 0
  registers during the waits, and both calls return loop 0. A third caller then goes through
  a whole call for another name, wait included; a fourth call for the name still returns
  loop 0. Only then is thread 1 scheduled; it overwrites the entry, and the fifth call
  returns loop 1.
\<close>

theorem handle_changes_counterexample:
  "fst (run [Check 1 ''a'', Check 2 ''a'', Spawn 1, Spawn 2, Fire 0, Wake 1, Wake 2,
             Check 3 ''b'', Spawn 3, Wake 3, Check 4 ''a'', Fire 1, Check 5 ''a'']
            registry_init)
   = [(1, ''a'', Inr 0), (2, ''a'', Inr 0), (3, ''b'', Inl (KeyError ''b'')),
      (4, ''a'', Inr 0), (5, ''a'', Inr 1)]"
  by (simp add: registry_init_def check_def spawn_def wake_def fire_def run_async_def
        set_call_def end_call_def)

text \<open>
  C9, amended. A call for a name that has a registry entry returns the registered loop at
  its first lookup and leaves the whole state as it was: no thread is started, nothing is
  appended to \<^verbatim>\<open>TMP_THREADS\<close>. And once a name is settled (it is registered, no started
  thread is still to register it, and no caller that found it missing is about to start a
  thread for it), every call for the name that returns from then on returns the same
  loop, whatever the callers and the loop threads do in between, and the name stays settled.
\<close>

theorem registered_name_stable:
  "(EVENT_LOOPS s name = Some h \<and> map_of (calls s) cid = None \<longrightarrow>
      check cid name s = (Some (Inr h), s)
      \<and> get_named_event_loop cid name [] [] s = ([(cid, name, Inr h)], s))
   \<and> (settled name h s \<longrightarrow>
        (\<forall>c r. (c, name, r) \<in> set (fst (run acts s)) \<longrightarrow> r = Inr h)
        \<and> settled name h (snd (run acts s)))"
proof -
  have 1: "EVENT_LOOPS s name = Some h \<Longrightarrow> map_of (calls s) cid = None \<Longrightarrow>
           get_named_event_loop cid name [] [] s = ([(cid, name, Inr h)], s)"
    by (simp add: get_named_event_loop_def registered_returns spawn_def wake_def)
  show ?thesis
    using run_settled [of name h s acts] 1 by (simp add: registered_returns)
qed

theorem registered_name_stable_witness:
  "settled ''a'' 0 (snd (run [Check 1 ''a'', Spawn 1, Fire 0, Wake 1] registry_init))
   \<and> map_of (calls (snd (run [Check 1 ''a'', Spawn 1, Fire 0, Wake 1] registry_init))) 7 = None
   \<and> check 7 ''a'' (snd (run [Check 1 ''a'', Spawn 1, Fire 0, Wake 1] registry_init))
       = (Some (Inr 0), snd (run [Check 1 ''a'', Spawn 1, Fire 0, Wake 1] registry_init))
   \<and> fst (run [Check 2 ''b'', Check 3 ''a'', Spawn 2, Fire 1, Wake 2, Check 4 ''a'']
             (snd (run [Check 1 ''a'', Spawn 1, Fire 0, Wake 1] registry_init)))
       = [(3, ''a'', Inr 0), (2, ''b'', Inr 1), (4, ''a'', Inr 0)]"
proof -
  let ?s = "snd (run [Check 1 ''a'', Spawn 1, Fire 0, Wake 1] registry_init)"
  have st: "settled ''a'' 0 ?s"
    by (simp add: settled_def registry_init_def check_def spawn_def wake_def fire_def
          run_async_def set_call_def end_call_def)
  then have reg: "EVENT_LOOPS ?s ''a'' = Some 0" by (simp add: settled_def)
  have free: "map_of (calls ?s) 7 = None"
    by (simp add: registry_init_def check_def spawn_def wake_def fire_def
          run_async_def set_call_def end_call_def)
  have lg: "fst (run [Check 2 ''b'', Check 3 ''a'', Spawn 2, Fire 1, Wake 2, Check 4 ''a''] ?s)
       = [(3, ''a'', Inr 0), (2, ''b'', Inr 1), (4, ''a'', Inr 0)]"
    by (simp add: registry_init_def check_def spawn_def wake_def fire_def
          run_async_def set_call_def end_call_def)
  from registered_name_stable
         [of ?s "''a''" 0 7 "[Check 2 ''b'', Check 3 ''a'', Spawn 2, Fire 1, Wake 2, Check 4 ''a'']"]
       st reg free
  have "check 7 ''a'' ?s = (Some (Inr 0), ?s)" by blast
  with st free lg show ?thesis by (intro conjI)
qed

text \<open>
  C10, as stated, fails when another call for the same name is under way. Caller 1 has
  looked the name up in vain. Caller 2 does the same; while it is between its lookup and
  its \<^verbatim>\<open>run_async\<close>, caller 1 starts its thread (loop 0); caller 2 starts its own (loop
  1); during the wait of caller 2 only the thread of caller 1 registers. The thread that
  caller 2 started has not recorded its entry, and yet the lookup returns a loop.
\<close>

theorem other_thread_registers_counterexample:
  "EVENT_LOOPS (snd (run [Check 1 ''a''] registry_init)) ''a'' = None
   \<and> get_named_event_loop 2 ''a'' [Spawn 1] [Fire 0] (snd (run [Check 1 ''a''] registry_init))
       = ([(2, ''a'', Inr 0)],
          \<lparr>EVENT_LOOPS = [''a'' \<mapsto> 0], pending = [(1, ''a'')], TMP_THREADS = [0, 1],
           next_loop = 2, calls = [(1, Sleeping ''a'')]\<rparr>)"
  by (simp add: get_named_event_loop_def registry_init_def check_def spawn_def wake_def fire_def
        run_async_def set_call_def end_call_def)

text \<open>
  C10, amended. Let the thread \<open>cid\<close> call \<^verbatim>\<open>get_named_event_loop(name)\<close> when the name
  has no entry, and let no loop thread started for the name, be it by this call or by any
  other call, earlier or concurrent, write its entry before the wait of this call is over
  (the steps \<open>before\<close> and \<open>during\<close> are those of the other threads). Then the lookup
  \<^verbatim>\<open>EVENT_LOOPS[name]\<close> raises the key error: that is the one outcome of the call.
\<close>

theorem unregistered_raises_KeyError:
  assumes unreg: "EVENT_LOOPS s name = None"
    and free: "map_of (calls s) cid = None"
    and ob: "others cid before" and od: "others cid during"
    and q: "quiet name (Check cid name # before @ Spawn cid # during @ [Wake cid]) s"
  shows "filter (\<lambda>e. fst e = cid) (fst (get_named_event_loop cid name before during s))
         = [(cid, name, Inl (KeyError name))]"
proof -
  let ?s0 = "set_call cid (Checked name) s"
  have c: "check cid name s = (None, ?s0)" using unreg free by (simp add: check_def)
  have r0: "run [Check cid name] s = ([], ?s0)" using c by simp
  obtain l1 s1 where r1: "run before ?s0 = (l1, s1)" by (cases "run before ?s0")
  let ?s2 = "spawn cid s1"
  obtain l3 s3 where r3: "run during ?s2 = (l3, s3)" by (cases "run during ?s2")
  have c0: "map_of (calls ?s0) cid = Some (Checked name)" by (simp add: set_call_def)
  from others_run [OF ob, of ?s0] r1 c0
  have c1: "map_of (calls s1) cid = Some (Checked name)" and n1: "\<forall>n r. (cid, n, r) \<notin> set l1"
    by simp_all
  have s2: "?s2 = set_call cid (Sleeping name) (run_async name s1)"
    using c1 by (simp add: spawn_def)
  then have c2: "map_of (calls ?s2) cid = Some (Sleeping name)" by (simp add: set_call_def)
  from others_run [OF od, of ?s2] r3 c2
  have c3: "map_of (calls s3) cid = Some (Sleeping name)" and n3: "\<forall>n r. (cid, n, r) \<notin> set l3"
    by simp_all
  let ?pre = "Check cid name # before @ Spawn cid # during"
  have rp: "run ?pre s = (l1 @ l3, s3)"
  proof -
    have "run (before @ Spawn cid # during) ?s0 = (l1 @ l3, s3)"
      using run_append [of before "Spawn cid # during" ?s0] r1 r3 by simp
    then show ?thesis using c by simp
  qed
  have "quiet name (?pre @ [Wake cid]) s" using q by simp
  then have "quiet name ?pre s" by (simp only: quiet_append)
  from quiet_loops [OF this] rp unreg have e3: "EVENT_LOOPS s3 name = None" by simp
  have w: "wake cid s3 = (Some (name, Inl (KeyError name)), end_call cid s3)"
    using c3 e3 by (simp add: wake_def)
  have "run (?pre @ [Wake cid]) s = ((l1 @ l3) @ [(cid, name, Inl (KeyError name))], end_call cid s3)"
    using run_append [of ?pre "[Wake cid]" s] rp w by simp
  then have "fst (get_named_event_loop cid name before during s)
             = l1 @ l3 @ [(cid, name, Inl (KeyError name))]"
    by (simp add: get_named_event_loop_def)
  moreover have "filter (\<lambda>e. fst e = cid) l1 = []" using n1 by (auto simp: filter_empty_conv)
  moreover have "filter (\<lambda>e. fst e = cid) l3 = []" using n3 by (auto simp: filter_empty_conv)
  ultimately show ?thesis by simp
qed

theorem unregistered_raises_KeyError_witness:
  "EVENT_LOOPS (snd (run [Check 1 ''b'', Spawn 1] registry_init)) ''a'' = None
   \<and> map_of (calls (snd (run [Check 1 ''b'', Spawn 1] registry_init))) 2 = None
   \<and> others 2 [Check 3 ''a''] \<and> others 2 [Fire 0, Spawn 3, Wake 1]
   \<and> quiet ''a'' (Check 2 ''a'' # [Check 3 ''a''] @ Spawn 2 # [Fire 0, Spawn 3, Wake 1] @ [Wake 2])
        (snd (run [Check 1 ''b'', Spawn 1] registry_init))
   \<and> filter (\<lambda>e. fst e = 2)
        (fst (get_named_event_loop 2 ''a'' [Check 3 ''a''] [Fire 0, Spawn 3, Wake 1]
               (snd (run [Check 1 ''b'', Spawn 1] registry_init))))
       = [(2, ''a'', Inl (KeyError ''a''))]
   \<and> fst (get_named_event_loop 2 ''a'' [Check 3 ''a''] [Fire 0, Spawn 3, Wake 1]
            (snd (run [Check 1 ''b'', Spawn 1] registry_init)))
       = [(1, ''b'', Inr 0), (2, ''a'', Inl (KeyError ''a''))]"
proof -
  let ?s = "snd (run [Check 1 ''b'', Spawn 1] registry_init)"
  have a: "EVENT_LOOPS ?s ''a'' = None"
    by (simp add: registry_init_def check_def spawn_def run_async_def set_call_def)
  have b: "map_of (calls ?s) 2 = None"
    by (simp add: registry_init_def check_def spawn_def run_async_def set_call_def)
  have c: "others 2 [Check 3 ''a'']" and d: "others 2 [Fire 0, Spawn 3, Wake 1]"
    by (simp_all add: others_def)
  have e: "quiet ''a'' (Check 2 ''a'' # [Check 3 ''a''] @ Spawn 2 # [Fire 0, Spawn 3, Wake 1] @ [Wake 2]) ?s"
    by (simp add: registry_init_def check_def spawn_def wake_def fire_def run_async_def
          set_call_def end_call_def)
  have f: "fst (get_named_event_loop 2 ''a'' [Check 3 ''a''] [Fire 0, Spawn 3, Wake 1] ?s)
           = [(1, ''b'', Inr 0), (2, ''a'', Inl (KeyError ''a''))]"
    by (simp add: get_named_event_loop_def registry_init_def check_def spawn_def wake_def fire_def
          run_async_def set_call_def end_call_def)
  have g: "filter (\<lambda>e. fst e = 2)
             (fst (get_named_event_loop 2 ''a'' [Check 3 ''a''] [Fire 0, Spawn 3, Wake 1] ?s))
           = [(2, ''a'', Inl (KeyError ''a''))]"
    by (rule unregistered_raises_KeyError [OF a b c d e])
  from a b c d e g f show ?thesis by (intro conjI)
qed

section \<open>Properties of the response patcher\<close>

lemma dm2: "c1 < 64 \<Longrightarrow> (b * 64 + c1) div 64 = (b::nat) \<and> (b * 64 + c1) mod 64 = c1"
  by simp

lemma dm3: 
  assumes a: "c1 < 64" "c2 < 64"
  shows "(b * 4096 + c1 * 64 + c2) div 4096 = (b::nat)
  \<and> (b * 4096 + c1 * 64 + c2) div 64 mod 64 = c1
  \<and> (b * 4096 + c1 * 64 + c2) mod 64 = c2"
proof -
  have "(b * 4096 + c1 * 64 + c2) div 64 = b * 64 + c1"
    using dm2 [of c2 "b * 64 + c1"] a by (simp add: algebra_simps)
  moreover have "(b * 4096 + c1 * 64 + c2) mod 64 = c2"
    using dm2 [of c2 "b * 64 + c1"] a by (simp add: algebra_simps)
  moreover have "c1 * 64 + c2 < 4096" using a by simp
  then have "(b * 4096 + (c1 * 64 + c2)) div 4096 = b" by simp
  ultimately show ?thesis using a by (simp add: add.assoc)
qed

lemma dm4: 
  assumes a: "c1 < 64" "c2 < 64" "c3 < 64"
  shows "(b * 262144 + c1 * 4096 + c2 * 64 + c3) div 262144 = (b::nat)
  \<and> (b * 262144 + c1 * 4096 + c2 * 64 + c3) div 4096 mod 64 = c1
  \<and> (b * 262144 + c1 * 4096 + c2 * 64 + c3) div 64 mod 64 = c2
  \<and> (b * 262144 + c1 * 4096 + c2 * 64 + c3) mod 64 = c3"
proof -
  let ?n = "b * 262144 + c1 * 4096 + c2 * 64 + c3"
  have n: "?n = (b * 64 + c1) * 4096 + c2 * 64 + c3" by simp
  have "c1 * 4096 + c2 * 64 + c3 < 262144" using a by simp
  then have "(b * 262144 + (c1 * 4096 + c2 * 64 + c3)) div 262144 = b" by simp
  then have "?n div 262144 = b" by (simp add: add.assoc)
  then show ?thesis
    using dm3 [of c2 c3 "b * 64 + c1"] a dm2 [of c1 b] by (simp add: n)
qed


lemma enc1: "c < 128 \<Longrightarrow> utf8_encode (c # cs) = c # utf8_encode cs"
  by simp

lemma enc2:
  assumes "194 \<le> b" "b \<le> 223" "cont c1"
  shows "utf8_encode (((b - 192) * 64 + (c1 - 128)) # cs) = b # c1 # utf8_encode cs"
proof -
  define b' where "b' = b - 192"
  define c1' where "c1' = c1 - 128"
  have b: "b = 192 + b'" and c1: "c1 = 128 + c1'"
    using assms by (simp_all add: b'_def c1'_def cont_def)
  have r: "2 \<le> b'" "b' < 32" "c1' < 64"
    using assms by (auto simp: b'_def c1'_def cont_def)
  have "128 \<le> b' * 64 + c1'" "b' * 64 + c1' < 2048" using r by simp_all
  with dm2 [of c1' b'] r show ?thesis by (simp add: b c1)
qed

lemma enc3:
  assumes "224 \<le> b" "b \<le> 239" "cont c1" "cont c2" "b = 224 \<longrightarrow> 160 \<le> c1"
  shows "utf8_encode (((b - 224) * 4096 + (c1 - 128) * 64 + (c2 - 128)) # cs)
         = b # c1 # c2 # utf8_encode cs"
proof -
  define b' where "b' = b - 224"
  define c1' where "c1' = c1 - 128"
  define c2' where "c2' = c2 - 128"
  have b: "b = 224 + b'" and c1: "c1 = 128 + c1'" and c2: "c2 = 128 + c2'"
    using assms by (simp_all add: b'_def c1'_def c2'_def cont_def)
  have r: "b' < 16" "c1' < 64" "c2' < 64" "b' = 0 \<longrightarrow> 32 \<le> c1'"
    using assms by (auto simp: b'_def c1'_def c2'_def cont_def)
  have lo: "2048 \<le> b' * 4096 + c1' * 64 + c2'"
  proof (cases "b' = 0")
    case True
    with r have "32 * 64 \<le> c1' * 64" by simp
    then show ?thesis by simp
  next
    case False
    then have "1 * 4096 \<le> b' * 4096" by simp
    then show ?thesis by simp
  qed
  have hi: "b' * 4096 + c1' * 64 + c2' < 65536" using r by simp
  from lo hi dm3 [of c1' c2' b'] r show ?thesis by (simp add: b c1 c2)
qed

lemma enc4:
  assumes "240 \<le> b" "b \<le> 244" "cont c1" "cont c2" "cont c3" "b = 240 \<longrightarrow> 144 \<le> c1"
  shows "utf8_encode (((b - 240) * 262144 + (c1 - 128) * 4096 + (c2 - 128) * 64 + (c3 - 128)) # cs)
         = b # c1 # c2 # c3 # utf8_encode cs"
proof -
  define b' where "b' = b - 240"
  define c1' where "c1' = c1 - 128"
  define c2' where "c2' = c2 - 128"
  define c3' where "c3' = c3 - 128"
  have b: "b = 240 + b'" and c1: "c1 = 128 + c1'" and c2: "c2 = 128 + c2'" and c3: "c3 = 128 + c3'"
    using assms by (simp_all add: b'_def c1'_def c2'_def c3'_def cont_def)
  have r: "c1' < 64" "c2' < 64" "c3' < 64" "b' = 0 \<longrightarrow> 16 \<le> c1'"
    using assms by (auto simp: b'_def c1'_def c2'_def c3'_def cont_def)
  have lo: "65536 \<le> b' * 262144 + c1' * 4096 + c2' * 64 + c3'"
  proof (cases "b' = 0")
    case True
    with r have "16 * 4096 \<le> c1' * 4096" by simp
    then show ?thesis by simp
  next
    case False
    then have "1 * 262144 \<le> b' * 262144" by simp
    then show ?thesis by simp
  qed
  from lo dm4 [of c1' c2' c3' b'] r show ?thesis by (simp add: b c1 c2 c3)
qed

lemma roundtrip: "utf8_decode bs = Some cs \<Longrightarrow> utf8_encode cs = bs"
proof (induction "length bs" arbitrary: bs cs rule: less_induct)
  case less
  show ?case
  proof (cases bs)
    case Nil
    with less.prems show ?thesis by simp
  next
    case (Cons b r0)
    consider (one) "b < 128" | (two) "194 \<le> b" "b \<le> 223" | (three) "224 \<le> b" "b \<le> 239"
      | (four) "240 \<le> b" "b \<le> 244" | (bad) "128 \<le> b" "b < 194" | (high) "244 < b"
      by linarith
    then show ?thesis
    proof cases
      case one
      with less.prems Cons obtain r where r: "utf8_decode r0 = Some r" "cs = b # r" by auto
      from less.hyps [of r0 r] r Cons have "utf8_encode r = r0" by simp
      with one r Cons show ?thesis by simp
    next
      case two
      with less.prems Cons obtain c1 r1 r where
        s: "r0 = c1 # r1" "cont c1" "utf8_decode r1 = Some r" "cs = ((b - 192) * 64 + (c1 - 128)) # r"
        by (auto split: list.splits if_splits)
      from less.hyps [of r1 r] s Cons have "utf8_encode r = r1" by simp
      with enc2 [OF two s(2), of r] s Cons show ?thesis by simp
    next
      case three
      with less.prems Cons obtain c1 c2 r1 r where
        s: "r0 = c1 # c2 # r1" "cont c1" "cont c2" "b = 224 \<longrightarrow> 160 \<le> c1"
           "utf8_decode r1 = Some r" "cs = ((b - 224) * 4096 + (c1 - 128) * 64 + (c2 - 128)) # r"
        by (auto split: list.splits if_splits simp: cont_def)
      from less.hyps [of r1 r] s Cons have "utf8_encode r = r1" by simp
      with enc3 [OF three s(2) s(3) s(4), of r] s Cons show ?thesis by simp
    next
      case four
      with less.prems Cons obtain c1 c2 c3 r1 r where
        s: "r0 = c1 # c2 # c3 # r1" "cont c1" "cont c2" "cont c3" "b = 240 \<longrightarrow> 144 \<le> c1"
           "utf8_decode r1 = Some r"
           "cs = ((b - 240) * 262144 + (c1 - 128) * 4096 + (c2 - 128) * 64 + (c3 - 128)) # r"
        by (auto split: list.splits if_splits simp: cont_def)
      from less.hyps [of r1 r] s Cons have "utf8_encode r = r1" by simp
      with enc4 [OF four s(2) s(3) s(4) s(5), of r] s Cons show ?thesis by simp
    next
      case bad
      with less.prems Cons show ?thesis by simp
    next
      case high
      with less.prems Cons show ?thesis by simp
    qed
  qed
qed


lemma greedy_span:
  assumes "\<And>a x xs. P x \<Longrightarrow> k a (x # xs) = None"
  shows "greedy P k acc s = k (acc @ takeWhile P s) (dropWhile P s)"
proof (induction s arbitrary: acc)
  case Nil
  then show ?case by simp
next
  case (Cons x xs)
  show ?case
  proof (cases "P x")
    case True
    show ?thesis
    proof (cases "greedy P k (acc @ [x]) xs")
      case None
      with Cons [of "acc @ [x]"] True assms [of x acc xs] show ?thesis by simp
    next
      case (Some r)
      with Cons [of "acc @ [x]"] have "k (acc @ x # takeWhile P xs) (dropWhile P xs) = Some r"
        by simp
      with Some True show ?thesis by simp
    qed
  next
    case False
    then show ?thesis by simp
  qed
qed

lemma rmatch_literals:
  "rmatch (map Literal w) s = Some (gs, r) \<longleftrightarrow> gs = [] \<and> s = w @ r"
proof (induction w arbitrary: s)
  case Nil
  then show ?case by auto
next
  case (Cons c w)
  then show ?case by (cases s) auto
qed


lemma rmatch_literals_eq:
  "rmatch (map Literal w) s =
     (if take (length w) s = w then Some ([], drop (length w) s) else None)"
proof (cases "take (length w) s = w")
  case True
  then have "s = w @ drop (length w) s" by (metis append_take_drop_id)
  then have "rmatch (map Literal w) s = Some ([], drop (length w) s)"
    using rmatch_literals [of w s "[]" "drop (length w) s"] by simp
  with True show ?thesis by simp
next
  case False
  have "rmatch (map Literal w) s = None"
  proof (cases "rmatch (map Literal w) s")
    case None
    then show ?thesis .
  next
    case (Some p)
    obtain gs r where "p = (gs, r)" by (cases p)
    with Some rmatch_literals [of w s gs r] have "s = w @ r" by simp
    with False show ?thesis by simp
  qed
  with False show ?thesis by simp
qed

lemma closing_tag_Cons: "closing_tag = ord (CHR ''<'') # tl closing_tag"
  by (simp add: closing_tag_def ustr_def)

lemma rmatch_close_reject:
  "x \<noteq> ord (CHR ''<'') \<Longrightarrow> rmatch (map Literal closing_tag) (x # xs) = None"
  by (subst closing_tag_Cons) simp

lemma chars:
  "is_space c \<Longrightarrow> \<not> date_class c"
  "is_space c \<Longrightarrow> c \<noteq> ord (CHR ''<'')"
  "is_space c \<Longrightarrow> c \<noteq> ord (CHR ''Z'')"
  "is_space c \<Longrightarrow> \<not> time_class c"
  "date_class c \<Longrightarrow> c \<noteq> ord (CHR '' '')"
  "time_class c \<Longrightarrow> c \<noteq> ord (CHR ''Z'')"
  "time_class c \<Longrightarrow> \<not> is_space c"
  "time_class c \<Longrightarrow> c \<noteq> ord (CHR ''<'')"
  "\<not> is_space (ord (CHR ''Z''))"
  "\<not> is_space (ord (CHR ''<''))"
  "\<not> time_class (ord (CHR ''Z''))"
  "\<not> time_class (ord (CHR ''<''))"
  "\<not> date_class (ord (CHR '' ''))"
  "ord (CHR ''Z'') \<noteq> ord (CHR ''<'')"
  "ord (CHR ''<'') \<noteq> ord (CHR ''Z'')"
  by (auto simp: is_space_def date_class_def time_class_def is_digit_def ord_def)

lemma rmatch_star:
  assumes "\<And>x xs. P x \<Longrightarrow> rmatch ns (x # xs) = None"
  shows "rmatch (Star P # ns) s = rmatch ns (dropWhile P s)"
  using greedy_span [of P "\<lambda>acc rest. rmatch ns rest" "[]" s] assms by simp

lemma rmatch_group_plus:
  assumes "\<And>x xs. P x \<Longrightarrow> rmatch ns (x # xs) = None"
  shows "rmatch (Group_Plus P # ns) s =
           (if takeWhile P s = [] then None
            else map_option (\<lambda>(gs, r). (takeWhile P s # gs, r)) (rmatch ns (dropWhile P s)))"
proof (cases s)
  case Nil
  then show ?thesis by simp
next
  case (Cons x xs)
  show ?thesis
  proof (cases "P x")
    case True
    have "greedy P (\<lambda>acc rest. map_option (\<lambda>(gs, r). (acc # gs, r)) (rmatch ns rest)) [x] xs
          = map_option (\<lambda>(gs, r). (([x] @ takeWhile P xs) # gs, r)) (rmatch ns (dropWhile P xs))"
      by (rule greedy_span) (simp add: assms)
    with Cons True show ?thesis by simp
  next
    case False
    with Cons show ?thesis by simp
  qed
qed

lemma rmatch_optional:
  assumes "\<And>xs. rmatch ns (c # xs) = None"
  shows "rmatch (Optional c # ns) s =
           rmatch ns (case s of [] \<Rightarrow> [] | x # xs \<Rightarrow> if x = c then xs else s)"
proof (cases s)
  case Nil
  then show ?thesis by simp
next
  case (Cons x xs)
  show ?thesis
  proof (cases "x = c")
    case True
    with Cons assms [of xs] show ?thesis by (cases "rmatch ns xs") simp_all
  next
    case False
    with Cons show ?thesis by simp
  qed
qed

lemma tail2_reject:
  "\<not> is_space x \<Longrightarrow> x \<noteq> ord (CHR ''<'')
   \<Longrightarrow> rmatch (Star is_space # map Literal closing_tag) (x # xs) = None"
  by (simp add: rmatch_star rmatch_close_reject chars del: rmatch.simps)

lemma tail3_eq:
  "rmatch (Optional (ord (CHR ''Z'')) # Star is_space # map Literal closing_tag) s
   = rmatch (map Literal closing_tag) (dropWhile is_space (strip_Z s))"
proof -
  have "rmatch (Optional (ord (CHR ''Z'')) # Star is_space # map Literal closing_tag) s
        = rmatch (Star is_space # map Literal closing_tag) (strip_Z s)"
    unfolding strip_Z_def by (rule rmatch_optional) (rule tail2_reject, simp_all add: chars)
  also have "\<dots> = rmatch (map Literal closing_tag) (dropWhile is_space (strip_Z s))"
    by (rule rmatch_star) (simp add: rmatch_close_reject chars)
  finally show ?thesis .
qed

lemma tail3_reject:
  "time_class x \<Longrightarrow>
   rmatch (Optional (ord (CHR ''Z'')) # Star is_space # map Literal closing_tag) (x # xs) = None"
  by (simp add: tail3_eq strip_Z_def chars rmatch_close_reject del: rmatch.simps)

lemma rmatch_scan:
  "rmatch creation_rx s = map_option (\<lambda>(d, t, r). ([d, t], r)) (scan s)"
proof -
  let ?t3 = "Optional (ord (CHR ''Z'')) # Star is_space # map Literal closing_tag"
  let ?t4 = "Group_Plus time_class # ?t3"
  let ?t5 = "Literal (ord (CHR '' '')) # ?t4"
  let ?t6 = "Group_Plus date_class # ?t5"
  have t4: "\<And>u. rmatch ?t4 u =
         (if takeWhile time_class u = [] then None
          else map_option (\<lambda>(gs, r). (takeWhile time_class u # gs, r))
                 (rmatch (map Literal closing_tag)
                    (dropWhile is_space (strip_Z (dropWhile time_class u)))))"
  proof -
    fix u
    have "rmatch ?t4 u =
         (if takeWhile time_class u = [] then None
          else map_option (\<lambda>(gs, r). (takeWhile time_class u # gs, r))
                 (rmatch ?t3 (dropWhile time_class u)))"
      by (rule rmatch_group_plus) (rule tail3_reject)
    then show "rmatch ?t4 u =
         (if takeWhile time_class u = [] then None
          else map_option (\<lambda>(gs, r). (takeWhile time_class u # gs, r))
                 (rmatch (map Literal closing_tag)
                    (dropWhile is_space (strip_Z (dropWhile time_class u)))))"
      by (simp only: tail3_eq)
  qed
  have t6: "\<And>u. rmatch ?t6 u =
         (if takeWhile date_class u = [] then None
          else map_option (\<lambda>(gs, r). (takeWhile date_class u # gs, r))
                 (rmatch ?t5 (dropWhile date_class u)))"
  proof (rule rmatch_group_plus)
    fix x xs
    assume "date_class x"
    then have "x \<noteq> ord (CHR '' '')" by (rule chars)
    then show "rmatch ?t5 (x # xs) = None" by (subst rmatch.simps) simp
  qed
  have t7: "\<And>u. rmatch (Star is_space # ?t6) u = rmatch ?t6 (dropWhile is_space u)"
  proof (rule rmatch_star)
    fix x xs
    assume "is_space x"
    then have "takeWhile date_class (x # xs) = []" by (simp add: chars)
    then show "rmatch ?t6 (x # xs) = None" by (simp only: t6 refl if_True)
  qed
  have t5: "\<And>u. rmatch ?t5 u =
         (case u of [] \<Rightarrow> None | y # s4 \<Rightarrow> if y = ord (CHR '' '') then rmatch ?t4 s4 else None)"
    by (rule rmatch.simps)
  have t8: "rmatch creation_rx s =
         (case s of [] \<Rightarrow> None
          | x # s1 \<Rightarrow> if x = ord (CHR ''>'') then rmatch (Star is_space # ?t6) s1 else None)"
    unfolding creation_rx_def append_Cons append_Nil by (rule rmatch.simps)
  show ?thesis
    unfolding t8 t7 t6 t5 t4 scan_def Let_def rmatch_literals_eq
    by (cases s) (auto split: list.splits simp del: dropWhile_eq_Nil_conv)
qed

lemma span_append:
  "list_all P a \<Longrightarrow> b = [] \<or> \<not> P (hd b)
   \<Longrightarrow> takeWhile P (a @ b) = a \<and> dropWhile P (a @ b) = b"
  by (induction a) (auto simp: takeWhile_eq_Nil_iff dropWhile_eq_self_iff)

lemma strip_Z_cases:
  "\<exists>z. (z = [] \<or> z = [ord (CHR ''Z'')]) \<and> s = z @ strip_Z s"
  by (cases s) (auto simp: strip_Z_def)

lemma scan_sound:
  assumes "scan s = Some (d, t, r)"
  shows "\<exists>m. occurrence m d t \<and> s = m @ r"
proof -
  from assms obtain s1 where s: "s = ord (CHR ''>'') # s1"
    by (cases s) (auto simp: scan_def split: if_splits)
  define s2 where "s2 = dropWhile is_space s1"
  from assms s have d: "d = takeWhile date_class s2" "d \<noteq> []"
    by (auto simp: scan_def Let_def s2_def split: if_splits list.splits)
  from assms s obtain s4 where s4: "dropWhile date_class s2 = ord (CHR '' '') # s4"
    by (auto simp: scan_def Let_def s2_def split: if_splits list.splits)
  define s6 where "s6 = strip_Z (dropWhile time_class s4)"
  from assms s s4 have t: "t = takeWhile time_class s4" "t \<noteq> []"
    and c: "take (length closing_tag) (dropWhile is_space s6) = closing_tag"
    and r: "r = drop (length closing_tag) (dropWhile is_space s6)"
    by (auto simp: scan_def Let_def s2_def s6_def split: if_splits list.splits)
  obtain z where z: "z = [] \<or> z = [ord (CHR ''Z'')]" "dropWhile time_class s4 = z @ s6"
    using strip_Z_cases [of "dropWhile time_class s4"] by (auto simp: s6_def)
  have "s1 = takeWhile is_space s1 @ s2" by (simp add: s2_def)
  also have "s2 = d @ ord (CHR '' '') # s4" using d s4 by (metis takeWhile_dropWhile_id)
  also have "s4 = t @ z @ s6" using t z by (metis takeWhile_dropWhile_id)
  also have "s6 = takeWhile is_space s6 @ dropWhile is_space s6" by simp
  also have "dropWhile is_space s6 = closing_tag @ r" using c r by (metis append_take_drop_id)
  finally have s1: "s1 = takeWhile is_space s1 @ d @ ord (CHR '' '') # t @ z @ takeWhile is_space s6 @ closing_tag @ r" .
  let ?m = "ord (CHR ''>'') # takeWhile is_space s1 @ d @ ord (CHR '' '') # t @ z @ takeWhile is_space s6 @ closing_tag"
  have "occurrence ?m d t"
    unfolding occurrence_def
    apply (rule exI [of _ "takeWhile is_space s1"], rule exI [of _ z], rule exI [of _ "takeWhile is_space s6"])
    using d t z by (auto simp: list_all_iff dest: set_takeWhileD)
  moreover have "s = ?m @ r" using s s1 by simp
  ultimately show ?thesis by blast
qed

lemma scan_complete:
  assumes "occurrence m d t"
  shows "scan (m @ r) = Some (d, t, r)"
proof -
  from assms obtain ws1 z ws2 where
    m: "m = ord (CHR ''>'') # ws1 @ d @ ord (CHR '' '') # t @ z @ ws2 @ closing_tag"
    and w1: "list_all is_space ws1" and d: "d \<noteq> []" "list_all date_class d"
    and t: "t \<noteq> []" "list_all time_class t"
    and z: "z = [] \<or> z = [ord (CHR ''Z'')]" and w2: "list_all is_space ws2"
    unfolding occurrence_def by blast
  let ?c = "closing_tag @ r"
  have hc: "hd ?c = ord (CHR ''<'')" "?c \<noteq> []"
    by (subst closing_tag_Cons, simp)+
  have hw: "hd (ws2 @ ?c) \<noteq> ord (CHR ''Z'') \<and> \<not> time_class (hd (ws2 @ ?c)) \<and> ws2 @ ?c \<noteq> []"
    using w2 hc by (cases ws2) (auto simp: chars)
  have hz: "\<not> time_class (hd (z @ ws2 @ ?c)) \<and> z @ ws2 @ ?c \<noteq> []"
    using z hw by (auto simp: chars)
  have hd_d: "\<not> is_space (hd (d @ ord (CHR '' '') # t @ z @ ws2 @ ?c))"
    using d by (cases d) (auto simp: chars)
  have 1: "dropWhile is_space (ws1 @ d @ ord (CHR '' '') # t @ z @ ws2 @ ?c)
           = d @ ord (CHR '' '') # t @ z @ ws2 @ ?c"
    using span_append [OF w1, of "d @ ord (CHR '' '') # t @ z @ ws2 @ ?c"] hd_d by simp
  have 2: "takeWhile date_class (d @ ord (CHR '' '') # t @ z @ ws2 @ ?c) = d
           \<and> dropWhile date_class (d @ ord (CHR '' '') # t @ z @ ws2 @ ?c) = ord (CHR '' '') # t @ z @ ws2 @ ?c"
    using span_append [OF d(2), of "ord (CHR '' '') # t @ z @ ws2 @ ?c"] by (simp add: chars)
  have 3: "takeWhile time_class (t @ z @ ws2 @ ?c) = t
           \<and> dropWhile time_class (t @ z @ ws2 @ ?c) = z @ ws2 @ ?c"
    using span_append [OF t(2), of "z @ ws2 @ ?c"] hz by simp
  have 4: "strip_Z (z @ ws2 @ ?c) = ws2 @ ?c"
    using z hw by (cases "ws2 @ ?c") (auto simp: strip_Z_def)
  have 5: "dropWhile is_space (ws2 @ ?c) = ?c"
    using span_append [OF w2, of ?c] hc by (simp add: chars)
  show ?thesis
    using d t by (simp add: m scan_def Let_def 1 2 3 4 5)
qed

lemma rmatch_creation_iff:
  "rmatch creation_rx s = Some (gs, r) \<longleftrightarrow> (\<exists>m d t. occurrence m d t \<and> s = m @ r \<and> gs = [d, t])"
proof
  assume "rmatch creation_rx s = Some (gs, r)"
  then obtain d t where "scan s = Some (d, t, r)" "gs = [d, t]"
    by (auto simp: rmatch_scan)
  with scan_sound show "\<exists>m d t. occurrence m d t \<and> s = m @ r \<and> gs = [d, t]" by blast
next
  assume "\<exists>m d t. occurrence m d t \<and> s = m @ r \<and> gs = [d, t]"
  then obtain m d t where "occurrence m d t" "s = m @ r" "gs = [d, t]" by blast
  with scan_complete [of m d t r] show "rmatch creation_rx s = Some (gs, r)"
    by (simp add: rmatch_scan)
qed

lemma occurrence_nonempty: "occurrence m d t \<Longrightarrow> m \<noteq> []"
  by (auto simp: occurrence_def)

lemma rmatch_creation_None:
  "rmatch creation_rx s = None \<longleftrightarrow> \<not> (\<exists>m d t r. occurrence m d t \<and> s = m @ r)"
proof (cases "rmatch creation_rx s")
  case None
  then show ?thesis using rmatch_creation_iff [of s] by (metis option.distinct(1))
next
  case (Some p)
  obtain gs r where "p = (gs, r)" by (cases p)
  with Some rmatch_creation_iff [of s gs r] show ?thesis by auto
qed

lemma expand_creation_repl:
  "expand creation_repl [d, t] = ord (CHR ''>'') # stamp d t @ closing_tag"
  by (simp add: creation_repl_def stamp_def closing_tag_def ustr_def)

lemma re_sub_hit:
  assumes "occurrence m d t"
  shows "re_sub creation_rx creation_repl (m @ post)
         = ord (CHR ''>'') # stamp d t @ closing_tag @ re_sub creation_rx creation_repl post"
proof -
  from assms have ne: "m \<noteq> []" by (rule occurrence_nonempty)
  then obtain x xs where c: "m @ post = x # xs" by (cases m) auto
  have r: "rmatch creation_rx (x # xs) = Some ([d, t], post)"
    using rmatch_creation_iff [of "m @ post" "[d, t]" post] assms c by auto
  have "length post < length (x # xs)" using ne c by (metis length_append length_greater_0_conv less_add_same_cancel2)
  with r show ?thesis
    unfolding c by (simp add: expand_creation_repl del: rmatch.simps)
qed

lemma re_sub_miss:
  assumes "rmatch creation_rx (x # xs) = None"
  shows "re_sub creation_rx creation_repl (x # xs) = x # re_sub creation_rx creation_repl xs"
  using assms by simp

lemma re_sub_Nil: "re_sub creation_rx creation_repl [] = []"
proof -
  have "rmatch creation_rx [] = None"
    using rmatch_creation_None [of "[]"] by (auto dest: occurrence_nonempty)
  then show ?thesis by simp
qed

lemma re_sub_skip:
  assumes "\<forall>pre' m' d' t' post'.
             occurrence m' d' t' \<and> pre @ s = pre' @ m' @ post' \<longrightarrow> length pre \<le> length pre'"
  shows "re_sub creation_rx creation_repl (pre @ s) = pre @ re_sub creation_rx creation_repl s"
  using assms
proof (induction pre)
  case Nil
  then show ?case by simp
next
  case (Cons x p)
  have "rmatch creation_rx (x # p @ s) = None"
  proof (rule ccontr)
    assume "rmatch creation_rx (x # p @ s) \<noteq> None"
    then have "\<exists>m d t r. occurrence m d t \<and> x # p @ s = m @ r"
      using rmatch_creation_None [of "x # p @ s"] by simp
    then obtain m d t r where "occurrence m d t" "x # p @ s = m @ r" by blast
    then have "occurrence m d t \<and> (x # p) @ s = [] @ m @ r" by simp
    with Cons.prems have "length (x # p) \<le> length ([]::ustring)" by blast
    then show False by simp
  qed
  then have 1: "re_sub creation_rx creation_repl ((x # p) @ s)
                = x # re_sub creation_rx creation_repl (p @ s)"
    using re_sub_miss [of x "p @ s"] by simp
  have "\<forall>pre' m' d' t' post'.
          occurrence m' d' t' \<and> p @ s = pre' @ m' @ post' \<longrightarrow> length p \<le> length pre'"
  proof (intro allI impI)
    fix pre' m' d' t' post'
    assume "occurrence m' d' t' \<and> p @ s = pre' @ m' @ post'"
    then have "occurrence m' d' t' \<and> (x # p) @ s = (x # pre') @ m' @ post'" by simp
    with Cons.prems have "length (x # p) \<le> length (x # pre')" by blast
    then show "length p \<le> length pre'" by simp
  qed
  with Cons.IH 1 show ?case by simp
qed

lemma re_sub_no_occurrence:
  "\<not> occurs_in c \<Longrightarrow> re_sub creation_rx creation_repl c = c"
proof -
  assume no: "\<not> occurs_in c"
  have "\<forall>pre' m' d' t' post'.
          occurrence m' d' t' \<and> c @ [] = pre' @ m' @ post' \<longrightarrow> length c \<le> length pre'"
    using no by (auto simp: occurs_in_def)
  from re_sub_skip [OF this] show ?thesis by (simp add: re_sub_Nil del: re_sub.simps)
qed

lemma rewritten_re_sub: "rewritten c (re_sub creation_rx creation_repl c)"
proof (induction "length c" arbitrary: c rule: less_induct)
  case less
  show ?case
  proof (cases "occurs_in c")
    case False
    then show ?thesis by (simp add: re_sub_no_occurrence rewritten_none)
  next
    case True
    let ?P = "\<lambda>k. \<exists>pre m d t post. occurrence m d t \<and> c = pre @ m @ post \<and> length pre = k"
    from True have "\<exists>k. ?P k" by (auto simp: occurs_in_def)
    then obtain k where k: "?P k" and least: "\<forall>j<k. \<not> ?P j"
      using exists_least_iff [of ?P] by blast
    from k obtain pre m d t post where
      occ: "occurrence m d t" and c: "c = pre @ m @ post" and len: "length pre = k" by blast
    have left: "\<forall>pre' m' d' t' post'.
                 occurrence m' d' t' \<and> pre @ m @ post = pre' @ m' @ post' \<longrightarrow> length pre \<le> length pre'"
    proof (intro allI impI)
      fix pre' m' d' t' post'
      assume "occurrence m' d' t' \<and> pre @ m @ post = pre' @ m' @ post'"
      with c have "?P (length pre')" by blast
      with least len show "length pre \<le> length pre'" by (metis not_less)
    qed
    have "length post < length c" using c occurrence_nonempty [OF occ] by simp
    then have ih: "rewritten post (re_sub creation_rx creation_repl post)" by (rule less.hyps)
    have "re_sub creation_rx creation_repl c
          = pre @ ord (CHR ''>'') # stamp d t @ closing_tag @ re_sub creation_rx creation_repl post"
      using re_sub_skip [OF left] re_sub_hit [OF occ, of post] c by simp
    with rewritten_step [OF occ left ih] c show ?thesis by simp
  qed
qed

lemma rewritten_unique: "rewritten c c' \<Longrightarrow> c' = re_sub creation_rx creation_repl c"
proof (induction rule: rewritten.induct)
  case (rewritten_none c)
  then show ?case by (simp add: re_sub_no_occurrence)
next
  case (rewritten_step m d t pre post post')
  then show ?case
    using re_sub_skip [of pre "m @ post"] re_sub_hit [of m d t post] by simp
qed

lemma re_search_occurs: "re_search creation_rx c \<longleftrightarrow> occurs_in c"
proof (induction c)
  case Nil
  have "rmatch creation_rx [] = None"
    using rmatch_creation_None [of "[]"] by (auto dest: occurrence_nonempty)
  moreover have "\<not> occurs_in []" by (auto simp: occurs_in_def dest: occurrence_nonempty)
  ultimately show ?case by simp
next
  case (Cons x xs)
  have "occurs_in (x # xs) \<longleftrightarrow> rmatch creation_rx (x # xs) \<noteq> None \<or> occurs_in xs"
  proof
    assume "occurs_in (x # xs)"
    then obtain pre m d t post where o: "occurrence m d t" "x # xs = pre @ m @ post"
      by (auto simp: occurs_in_def)
    show "rmatch creation_rx (x # xs) \<noteq> None \<or> occurs_in xs"
    proof (cases pre)
      case Nil
      with o have "\<exists>m d t r. occurrence m d t \<and> x # xs = m @ r" by auto
      then have "rmatch creation_rx (x # xs) \<noteq> None"
        using rmatch_creation_None [of "x # xs"] by simp
      then show ?thesis by simp
    next
      case (Cons y p)
      with o have "xs = p @ m @ post" by simp
      with o(1) have "occurs_in xs" unfolding occurs_in_def by blast
      then show ?thesis by simp
    qed
  next
    assume "rmatch creation_rx (x # xs) \<noteq> None \<or> occurs_in xs"
    then show "occurs_in (x # xs)"
    proof
      assume "rmatch creation_rx (x # xs) \<noteq> None"
      then have "\<exists>m d t r. occurrence m d t \<and> x # xs = m @ r"
        using rmatch_creation_None [of "x # xs"] by simp
      then obtain m d t r where "occurrence m d t" "x # xs = [] @ m @ r" by auto
      then show ?thesis unfolding occurs_in_def by blast
    next
      assume "occurs_in xs"
      then obtain pre m d t post where "occurrence m d t" "x # xs = (x # pre) @ m @ post"
        by (auto simp: occurs_in_def)
      then show ?thesis unfolding occurs_in_def by blast
    qed
  qed
  with Cons show ?case by simp
qed

lemma shaped_length: "shaped ps cs \<Longrightarrow> length cs = length ps"
  by (induction ps cs rule: shaped.induct) auto

lemma shaped_all:
  "shaped ps cs \<Longrightarrow> \<forall>p \<in> set ps. p \<noteq> CHR ''d'' \<longrightarrow> P (ord p) \<Longrightarrow> \<forall>c. is_digit c \<longrightarrow> P c
   \<Longrightarrow> list_all P cs"
  by (induction ps cs rule: shaped.induct) (auto split: if_splits)

lemma iso_date_class: "is_iso_date d \<Longrightarrow> d \<noteq> [] \<and> list_all date_class d \<and> length d = 10"
proof -
  assume a: "is_iso_date d"
  then have s: "shaped ''dddd-dd-dd'' d" by (simp add: is_iso_date_def)
  from shaped_length [OF s] have l: "length d = 10" by simp
  from shaped_all [OF s, of date_class] have "list_all date_class d"
    by (simp add: date_class_def)
  with l show ?thesis by auto
qed

lemma iso_time_class: "is_iso_time t \<Longrightarrow> t \<noteq> [] \<and> list_all time_class t"
proof -
  assume a: "is_iso_time t"
  then have s: "shaped ''dd:dd:dd'' (take 8 t)" by (simp add: is_iso_time_def)
  from shaped_length [OF s] have ne: "t \<noteq> []" by auto
  from shaped_all [OF s, of time_class] have 1: "list_all time_class (take 8 t)"
    by (simp add: time_class_def)
  have 2: "list_all time_class (drop 8 t)"
  proof (cases "drop 8 t")
    case Nil
    then show ?thesis by simp
  next
    case (Cons c f)
    with a have "c = ord (CHR ''.'')" "list_all is_digit f" by (simp_all add: is_iso_time_def)
    with Cons show ?thesis by (auto simp: time_class_def list_all_iff)
  qed
  have "list_all time_class (take 8 t @ drop 8 t)" using 1 2 by (simp only: list_all_append)
  with ne show ?thesis by simp
qed

lemma iso_occurrence:
  assumes "is_iso_date d" "is_iso_time t" "z = [] \<or> z = [ord (CHR ''Z'')]"
  shows "occurrence (ord (CHR ''>'') # d @ ord (CHR '' '') # t @ z @ closing_tag) d t"
  unfolding occurrence_def
  apply (rule exI [of _ "[]"], rule exI [of _ z], rule exI [of _ "[]"])
  using assms iso_date_class [of d] iso_time_class [of t] by simp

lemma iso_stamp:
  assumes "is_iso_date d" "is_iso_time t"
  shows "iso_timestamp (stamp d t)"
proof -
  from assms iso_date_class [of d] have l: "length d = 10" by simp
  then have "take 10 (stamp d t) = d" "drop 10 (stamp d t) = ord (CHR ''T'') # t @ [ord (CHR ''Z'')]"
    by (simp_all add: stamp_def)
  moreover have "drop 11 (stamp d t) = t @ [ord (CHR ''Z'')]"
    using l by (simp add: stamp_def)
  moreover have "last (stamp d t) = ord (CHR ''Z'')" by (simp add: stamp_def)
  ultimately show ?thesis using assms by (simp add: iso_timestamp_def)
qed

lemma fix_creation_date_content:
  "to_str (content response) = Some c \<Longrightarrow>
   content (fix_creation_date method path response) = Str (re_sub creation_rx creation_repl c)"
  by (simp add: fix_creation_date_def Let_def)

lemma fix_creation_date_length:
  "to_str (content response) = Some c \<Longrightarrow>
   headers (fix_creation_date method path response) ''Content-Length''
     = Some (str_of_nat (length (re_sub creation_rx creation_repl c)))"
  by (simp add: fix_creation_date_def Let_def)

lemma to_bytes_to_str: "to_str x = Some c \<Longrightarrow> utf8_encode c = to_bytes x"
  by (cases x) (simp_all add: roundtrip)

text \<open>
  C1. Let the content of the response decode to the text \<open>c\<close>. After
  \<^verbatim>\<open>fix_creation_date\<close> the content is a text \<open>c'\<close> that is \<open>c\<close> rewritten: every
  occurrence of the pattern (found from the left, an occurrence starting where the one
  before has ended at the earliest) is replaced by \<^verbatim>\<open>>\<close>, the date, \<^verbatim>\<open>T\<close>, the time,
  one \<^verbatim>\<open>Z\<close> and the closing tag, whether the source had a \<^verbatim>\<open>Z\<close> or not, and all the
  rest is copied; and \<open>c'\<close> is the only text that is \<open>c\<close> rewritten. The date and the time
  are copied as they stand. So for every date of the shape \<^verbatim>\<open>YYYY-MM-DD\<close> and time of the
  shape \<^verbatim>\<open>HH:MM:SS\<close> with or without a fraction: the pair between \<^verbatim>\<open>>\<close> and the closing
  tag is an occurrence, and the field that replaces it has the shape
  \<^verbatim>\<open>YYYY-MM-DDTHH:MM:SS[.ffffff]Z\<close>.
\<close>

theorem fix_creation_date_rewrites:
  assumes "to_str (content response) = Some c"
  shows "(\<exists>c'. content (fix_creation_date method path response) = Str c'
              \<and> rewritten c c' \<and> (\<forall>c''. rewritten c c'' \<longrightarrow> c'' = c'))
       \<and> (\<forall>d t z. is_iso_date d \<and> is_iso_time t \<and> (z = [] \<or> z = [ord (CHR ''Z'')]) \<longrightarrow>
             occurrence (ord (CHR ''>'') # d @ ord (CHR '' '') # t @ z @ closing_tag) d t
             \<and> iso_timestamp (stamp d t))"
proof -
  have "content (fix_creation_date method path response) = Str (re_sub creation_rx creation_repl c)"
    using assms by (rule fix_creation_date_content)
  moreover have "rewritten c (re_sub creation_rx creation_repl c)" by (rule rewritten_re_sub)
  moreover have "\<forall>c''. rewritten c c'' \<longrightarrow> c'' = re_sub creation_rx creation_repl c"
    using rewritten_unique by blast
  ultimately have first: "\<exists>c'. content (fix_creation_date method path response) = Str c'
              \<and> rewritten c c' \<and> (\<forall>c''. rewritten c c'' \<longrightarrow> c'' = c')"
    by blast
  have second: "\<forall>d t z. is_iso_date d \<and> is_iso_time t \<and> (z = [] \<or> z = [ord (CHR ''Z'')]) \<longrightarrow>
             occurrence (ord (CHR ''>'') # d @ ord (CHR '' '') # t @ z @ closing_tag) d t
             \<and> iso_timestamp (stamp d t)"
    using iso_occurrence iso_stamp by blast
  from first second show ?thesis by (rule conjI)
qed

theorem fix_creation_date_rewrites_witness:
  "to_str (Bytes ''<creationTimestamp>2020-01-01 10:00:00Z</creationTimestamp>'')
     = Some (ustr ''<creationTimestamp>2020-01-01 10:00:00Z</creationTimestamp>'')
   \<and> content (fix_creation_date ''GET'' ''/''
        \<lparr>content = Bytes ''<creationTimestamp>2020-01-01 10:00:00Z</creationTimestamp>'', headers = Map.empty\<rparr>)
     = Str (ustr ''<creationTimestamp>2020-01-01T10:00:00Z</creationTimestamp>'')
   \<and> rewritten (ustr ''<creationTimestamp>2020-01-01 10:00:00Z</creationTimestamp>'')
        (ustr ''<creationTimestamp>2020-01-01T10:00:00Z</creationTimestamp>'')
   \<and> iso_timestamp (ustr ''2020-01-01T10:00:00Z'')"
proof -
  let ?r = "\<lparr>content = Bytes ''<creationTimestamp>2020-01-01 10:00:00Z</creationTimestamp>'', headers = Map.empty\<rparr>"
  let ?c = "ustr ''<creationTimestamp>2020-01-01 10:00:00Z</creationTimestamp>''"
  have h: "to_str (content ?r) = Some ?c"
    by (simp add: ustr_def ord_def)
  have e: "content (fix_creation_date ''GET'' ''/'' ?r)
           = Str (ustr ''<creationTimestamp>2020-01-01T10:00:00Z</creationTimestamp>'')"
    by (simp add: fix_creation_date_def creation_rx_def creation_repl_def closing_tag_def ustr_def
          ord_def is_space_def date_class_def time_class_def is_digit_def)
  have d: "is_iso_date (ustr ''2020-01-01'')" "is_iso_time (ustr ''10:00:00'')"
    by (simp_all add: is_iso_date_def is_iso_time_def ustr_def ord_def is_digit_def)
  have s: "stamp (ustr ''2020-01-01'') (ustr ''10:00:00'') = ustr ''2020-01-01T10:00:00Z''"
    by (simp add: stamp_def ustr_def)
  from fix_creation_date_rewrites [OF h, of "''GET''" "''/''"]
  obtain c' where c': "content (fix_creation_date ''GET'' ''/'' ?r) = Str c'" "rewritten ?c c'"
    and iso: "\<forall>d t z. is_iso_date d \<and> is_iso_time t \<and> (z = [] \<or> z = [ord (CHR ''Z'')]) \<longrightarrow>
             occurrence (ord (CHR ''>'') # d @ ord (CHR '' '') # t @ z @ closing_tag) d t
             \<and> iso_timestamp (stamp d t)"
    by blast
  from c'(1) e have "c' = ustr ''<creationTimestamp>2020-01-01T10:00:00Z</creationTimestamp>''"
    by (simp only: content.inject)
  with c'(2) have r: "rewritten ?c (ustr ''<creationTimestamp>2020-01-01T10:00:00Z</creationTimestamp>'')"
    by (simp only:)
  from iso d have "iso_timestamp (stamp (ustr ''2020-01-01'') (ustr ''10:00:00''))" by blast
  then have i: "iso_timestamp (ustr ''2020-01-01T10:00:00Z'')" by (simp only: s)
  have h': "to_str (Bytes ''<creationTimestamp>2020-01-01 10:00:00Z</creationTimestamp>'') = Some ?c"
    using h by (simp only: response.simps)
  from h' e r i show ?thesis by (intro conjI)
qed

text \<open>
  C3. Let the content of the response decode to the text \<open>c\<close>, and let \<open>c\<close> have no
  occurrence of the pattern. After \<^verbatim>\<open>fix_creation_date\<close> the content is the text \<open>c\<close>,
  and as bytes it is what it was before.
\<close>

theorem fix_creation_date_no_occurrence:
  assumes "to_str (content response) = Some c" and "\<not> occurs_in c"
  shows "content (fix_creation_date method path response) = Str c
       \<and> to_bytes (content (fix_creation_date method path response)) = to_bytes (content response)"
proof -
  have "content (fix_creation_date method path response) = Str c"
    using assms by (simp add: fix_creation_date_content re_sub_no_occurrence)
  then show ?thesis using to_bytes_to_str [OF assms(1)] by simp
qed

theorem fix_creation_date_no_occurrence_witness:
  "to_str (Bytes ''<creationTimestamp>2020-01-01  10:00:00</creationTimestamp>'')
     = Some (ustr ''<creationTimestamp>2020-01-01  10:00:00</creationTimestamp>'')
   \<and> \<not> occurs_in (ustr ''<creationTimestamp>2020-01-01  10:00:00</creationTimestamp>'')
   \<and> content (fix_creation_date ''GET'' ''/''
        \<lparr>content = Bytes ''<creationTimestamp>2020-01-01  10:00:00</creationTimestamp>'', headers = Map.empty\<rparr>)
     = Str (ustr ''<creationTimestamp>2020-01-01  10:00:00</creationTimestamp>'')
   \<and> to_bytes (content (fix_creation_date ''GET'' ''/''
        \<lparr>content = Bytes ''<creationTimestamp>2020-01-01  10:00:00</creationTimestamp>'', headers = Map.empty\<rparr>))
     = map ord ''<creationTimestamp>2020-01-01  10:00:00</creationTimestamp>''"
proof -
  let ?r = "\<lparr>content = Bytes ''<creationTimestamp>2020-01-01  10:00:00</creationTimestamp>'', headers = Map.empty\<rparr>"
  let ?c = "ustr ''<creationTimestamp>2020-01-01  10:00:00</creationTimestamp>''"
  have h: "to_str (content ?r) = Some ?c"
    by (simp add: ustr_def ord_def)
  have "\<not> re_search creation_rx ?c"
    by (simp add: creation_rx_def closing_tag_def ustr_def
          ord_def is_space_def date_class_def time_class_def is_digit_def)
  then have n: "\<not> occurs_in ?c" by (simp only: re_search_occurs not_False_eq_True)
  have h': "to_str (Bytes ''<creationTimestamp>2020-01-01  10:00:00</creationTimestamp>'') = Some ?c"
    using h by (simp only: response.simps)
  have b: "to_bytes (content ?r) = map ord ''<creationTimestamp>2020-01-01  10:00:00</creationTimestamp>''"
    by (simp only: response.simps to_bytes.simps)
  from fix_creation_date_no_occurrence [OF h n, of "''GET''" "''/''"]
  have "content (fix_creation_date ''GET'' ''/'' ?r) = Str ?c"
    and "to_bytes (content (fix_creation_date ''GET'' ''/'' ?r)) = to_bytes (content ?r)"
    by blast+
  with b h' n show ?thesis by (simp only: simp_thms)
qed

lemma utf8_encode_ascii: "list_all (\<lambda>x. x < 128) cs \<Longrightarrow> utf8_encode cs = cs"
  by (induction cs) simp_all

text \<open>
  For a text of ASCII characters the header is the number of bytes: there the code does what
  C2 says.
\<close>

lemma content_length_ascii:
  assumes "to_str (content response) = Some c"
    and "list_all (\<lambda>x. x < 128) (re_sub creation_rx creation_repl c)"
  shows "headers (fix_creation_date method path response) ''Content-Length''
         = Some (str_of_nat (length (to_bytes (content (fix_creation_date method path response)))))"
  using assms
  by (simp add: fix_creation_date_length fix_creation_date_content utf8_encode_ascii)

text \<open>
  C2 fails on the code. \<^verbatim>\<open>len(response._content)\<close> is taken of the \<^verbatim>\<open>str\<close> that
  \<^verbatim>\<open>re.sub\<close> returned: it counts code points, not bytes. The content
  \<^verbatim>\<open>b'\xc3\xa9'\<close> is one character in two bytes; it has no occurrence of the pattern, the
  content stays those two bytes, and the header says \<^verbatim>\<open>1\<close>.
\<close>

theorem content_length_counts_characters:
  "headers (fix_creation_date ''GET'' ''/'' \<lparr>content = Bytes [CHR 0xC3, CHR 0xA9], headers = Map.empty\<rparr>)
     ''Content-Length'' = Some ''1''
   \<and> to_bytes (content (fix_creation_date ''GET'' ''/''
        \<lparr>content = Bytes [CHR 0xC3, CHR 0xA9], headers = Map.empty\<rparr>)) = [195, 169]
   \<and> to_bytes (Bytes [CHR 0xC3, CHR 0xA9]) = [195, 169]"
  by (simp add: fix_creation_date_def creation_rx_def creation_repl_def closing_tag_def ustr_def
        ord_def cont_def digit_def)

end
